theory Spec2Isabelle
  imports Complex_Main "HOL-Library.Word"
begin

unbundle bit_operations_syntax

section \<open>Utilities\<close>

text \<open>
  The random source (\<open>mulberry32(seed)\<close> during generation, \<open>Math.random\<close> during a
  turn) is a stream of draws. Both sources only return numbers in the half-open unit
  interval, which \<open>unit_draws\<close> records. A call \<open>rng()\<close> reads the head of the stream and
  leaves the rest to the later calls.
\<close>

type_synonym rng = "nat \<Rightarrow> real"

definition unit_draws :: "rng \<Rightarrow> bool" where
  "unit_draws r \<longleftrightarrow> (\<forall>n. 0 \<le> r n \<and> r n < 1)"

definition draw :: "rng \<Rightarrow> real" where
  "draw r = r 0"

definition rest :: "rng \<Rightarrow> rng" where
  "rest r = (\<lambda>n. r (Suc n))"

text \<open>
  \<open>mulberry32(seed)\<close>: the closure keeps a counter \<open>t\<close>, adds \<open>0x6D2B79F5\<close> to it at
  every call and scrambles it with 32-bit operations. The counter is a double that is never
  reduced; the bit operations read its low 32 bits, which are those of the wrapping word
  while the counter stays below \<open>2^53\<close>, that is for the first 4.9 million draws.
  \<open>Math.imul\<close> is the multiplication of words and \<open>>>>\<close> the logical shift.
\<close>

definition mulberry32_out :: "32 word \<Rightarrow> real" where
  "mulberry32_out t0 =
     (let r = (t0 XOR drop_bit 15 t0) * (1 OR t0);
          r' = r XOR (r + (r XOR drop_bit 7 r) * (61 OR r))
      in real (unat (r' XOR drop_bit 14 r')) / 4294967296)"

definition mulberry32 :: "32 word \<Rightarrow> rng" where
  "mulberry32 seed = (\<lambda>n. mulberry32_out (seed + (1 + of_nat n) * 0x6D2B79F5))"

text \<open>\<open>randInt(rng, min, max)\<close>: \<open>Math.floor(rng() * (max - min + 1)) + min\<close>; one draw.\<close>

definition randInt :: "rng \<Rightarrow> int \<Rightarrow> int \<Rightarrow> int" where
  "randInt r lo hi = \<lfloor>draw r * of_int (hi - lo + 1)\<rfloor> + lo"

text \<open>\<open>clamp(n, a, b)\<close>: \<open>Math.max(a, Math.min(b, n))\<close>.\<close>

definition clamp :: "'a::linorder \<Rightarrow> 'a \<Rightarrow> 'a \<Rightarrow> 'a" where
  "clamp n a b = max a (min b n)"

text \<open>
  \<open>shuffle(rng, arr)\<close>: Fisher-Yates on a copy, \<open>i\<close> running from the last index down
  to 1, one draw per round, \<open>a[i]\<close> and \<open>a[j]\<close> exchanged.
\<close>

fun shuffle_from :: "nat \<Rightarrow> 'a list \<Rightarrow> rng \<Rightarrow> 'a list \<times> rng" where
  "shuffle_from 0 a r = (a, r)"
| "shuffle_from (Suc k) a r =
     (let i = Suc k;
          j = nat \<lfloor>draw r * real (i + 1)\<rfloor>
      in shuffle_from k (a[i := a ! j, j := a ! i]) (rest r))"

definition shuffle :: "rng \<Rightarrow> 'a list \<Rightarrow> 'a list \<times> rng" where
  "shuffle r arr = shuffle_from (length arr - 1) arr r"

definition manhattan :: "int \<Rightarrow> int \<Rightarrow> int \<Rightarrow> int \<Rightarrow> int" where
  "manhattan ax ay bx by = \<bar>ax - bx\<bar> + \<bar>ay - by\<bar>"

section \<open>Grid model\<close>

datatype tile = WALL | FLOOR

datatype item = Almond

record cell =
  t :: tile
  light :: real
  seen :: bool
  item :: "item option"
  exit :: bool

text \<open>The map is an array of rows: \<open>map[y][x]\<close>.\<close>

type_synonym grid = "cell list list"

text \<open>
  Reading \<open>map[y][x]\<close>. Outside the rows, or outside row \<open>y\<close>, JavaScript yields
  \<open>undefined\<close>; a property read on it throws a TypeError, which the callers below
  render as \<open>None\<close>.
\<close>

definition cell_at :: "grid \<Rightarrow> int \<Rightarrow> int \<Rightarrow> cell option" where
  "cell_at m x y =
     (if 0 \<le> y \<and> y < int (length m) \<and> 0 \<le> x \<and> x < int (length (m ! nat y))
      then Some (m ! nat y ! nat x) else None)"

definition set_cell :: "grid \<Rightarrow> int \<Rightarrow> int \<Rightarrow> cell \<Rightarrow> grid" where
  "set_cell m x y c = m[nat y := (m ! nat y)[nat x := c]]"

definition inBounds :: "grid \<Rightarrow> int \<Rightarrow> int \<Rightarrow> bool" where
  "inBounds m x y \<longleftrightarrow> y \<ge> 0 \<and> y < int (length m) \<and> x \<ge> 0 \<and> x < int (length (m ! 0))"

text \<open>\<open>carve\<close> writes only where the cell exists.\<close>

definition carve :: "grid \<Rightarrow> int \<Rightarrow> int \<Rightarrow> grid" where
  "carve m x y =
     (case cell_at m x y of
        None \<Rightarrow> m
      | Some c \<Rightarrow> set_cell m x y (c\<lparr>t := FLOOR\<rparr>))"

section \<open>Pursuit\<close>

record hound =
  hx :: int
  hy :: int
  cooldown :: int

text \<open>
  The loop of \<open>stepHound\<close> over the sorted directions: the first destination that is in
  bounds and Floor is taken; with none, the hound is returned as it was.
\<close>

fun first_legal :: "grid \<Rightarrow> hound \<Rightarrow> (int \<times> int) list \<Rightarrow> hound option" where
  "first_legal m h [] = Some h"
| "first_legal m h ((dx, dy) # ds) =
     (let nx = hx h + dx; ny = hy h + dy
      in if \<not> inBounds m nx ny then first_legal m h ds
         else case cell_at m nx ny of
                None \<Rightarrow> None
              | Some c \<Rightarrow>
                  if t c = FLOOR then Some (h\<lparr>hx := nx, hy := ny\<rparr>)
                  else first_legal m h ds)"

definition unit_dirs :: "(int \<times> int) list" where
  "unit_dirs = [(1, 0), (-1, 0), (0, 1), (0, -1)]"

text \<open>
  \<open>stepHound\<close>: the four unit steps are shuffled, then sorted by the distance of their
  destination to the target. \<open>Array.prototype.sort\<close> is stable, as \<open>sort_key\<close> is.
\<close>

definition stepHound :: "grid \<Rightarrow> hound \<Rightarrow> int \<Rightarrow> int \<Rightarrow> rng \<Rightarrow> (hound \<times> rng) option" where
  "stepHound m h targetX targetY r =
     (let (sh, r') = shuffle r unit_dirs;
          dirs = sort_key (\<lambda>(dx, dy). manhattan (hx h + dx) (hy h + dy) targetX targetY) sh
      in case first_legal m h dirs of
           None \<Rightarrow> None
         | Some h' \<Rightarrow> Some (h', r'))"

text \<open>
  One round of the enemy loop of \<open>step\<close> for one hound. \<open>Math.random() < 0.3\<close> is only
  evaluated when the hound is not within distance 10 (\<open>||\<close> short-circuits).
\<close>

definition hound_turn :: "grid \<Rightarrow> int \<Rightarrow> int \<Rightarrow> hound \<Rightarrow> rng \<Rightarrow> (hound \<times> rng) option" where
  "hound_turn m nx ny h r =
     (if cooldown h > 0 then Some (h\<lparr>cooldown := cooldown h - 1\<rparr>, r)
      else let d = manhattan (hx h) (hy h) nx ny
           in if d < 10 then stepHound m h nx ny r
              else if draw r < 3 / 10 then stepHound m h nx ny (rest r)
              else Some (h, rest r))"

fun advance_hounds :: "grid \<Rightarrow> int \<Rightarrow> int \<Rightarrow> hound list \<Rightarrow> rng \<Rightarrow> (hound list \<times> rng) option" where
  "advance_hounds m nx ny [] r = Some ([], r)"
| "advance_hounds m nx ny (h # hs) r =
     (case hound_turn m nx ny h r of
        None \<Rightarrow> None
      | Some (h', r') \<Rightarrow>
          (case advance_hounds m nx ny hs r' of
             None \<Rightarrow> None
           | Some (hs', r'') \<Rightarrow> Some (h' # hs', r'')))"

section \<open>Maze generator\<close>

definition empty_cell :: cell where
  "empty_cell = \<lparr>t = WALL, light = 0, seen = False, item = None, exit = False\<rparr>"

definition makeEmptyMap :: "nat \<Rightarrow> nat \<Rightarrow> grid" where
  "makeEmptyMap w h = replicate h (replicate w empty_cell)"

definition maze_dirs :: "(int \<times> int) list" where
  "maze_dirs = [(2, 0), (-2, 0), (0, 2), (0, -2)]"

text \<open>
  The \<open>for\<close> loop over the shuffled directions inside the \<open>while\<close> loop of
  \<open>generateLayout\<close>: it either throws (a row shorter than row 0), finds no Wall
  neighbour, or carves the neighbour and the cell between and reports the neighbour.
  The directions are those of \<open>maze_dirs\<close>, so \<open>dx/2\<close> and \<open>dy/2\<close> are whole.
\<close>

datatype probe = Thrown | Blocked | Carved grid int int

fun try_dirs :: "grid \<Rightarrow> int \<Rightarrow> int \<Rightarrow> (int \<times> int) list \<Rightarrow> probe" where
  "try_dirs m cx cy [] = Blocked"
| "try_dirs m cx cy ((dx, dy) # ds) =
     (let nx = cx + dx; ny = cy + dy
      in if \<not> inBounds m nx ny then try_dirs m cx cy ds
         else case cell_at m nx ny of
                None \<Rightarrow> Thrown
              | Some c \<Rightarrow>
                  if t c = WALL
                  then Carved (carve (carve m nx ny) (cx + dx div 2) (cy + dy div 2)) nx ny
                  else try_dirs m cx cy ds)"

text \<open>The number of Wall cells, which the backtracker uses up.\<close>

definition walls :: "grid \<Rightarrow> nat" where
  "walls m = sum_list (map (\<lambda>row. length (filter (\<lambda>c. t c = WALL) row)) m)"

lemma walls_update_row:
  "i < length m \<Longrightarrow> walls (m[i := row]) + length (filter (\<lambda>c. t c = WALL) (m ! i))
      = walls m + length (filter (\<lambda>c. t c = WALL) row)"
  unfolding walls_def
proof (induction m arbitrary: i)
  case Nil
  then show ?case by simp
next
  case (Cons a m)
  then show ?case by (cases i) auto
qed

lemma filter_update_count:
  "j < length row \<Longrightarrow>
     length (filter P (row[j := c])) + (if P (row ! j) then 1 else 0)
       = length (filter P row) + (if P c then 1 else 0)"
proof (induction row arbitrary: j)
  case Nil
  then show ?case by simp
next
  case (Cons a row)
  then show ?case by (cases j) auto
qed

lemma walls_set_cell:
  assumes "cell_at m x y = Some c0"
  shows "walls (set_cell m x y c) + (if t c0 = WALL then 1 else 0)
           = walls m + (if t c = WALL then 1 else 0)"
proof -
  from assms have b: "nat y < length m" "nat x < length (m ! nat y)" and c0: "c0 = m ! nat y ! nat x"
    by (auto simp: cell_at_def split: if_splits)
  show ?thesis
    using walls_update_row[OF b(1), of "(m ! nat y)[nat x := c]"]
      filter_update_count[OF b(2), of "\<lambda>c. t c = WALL" c] c0
    by (simp add: set_cell_def split: if_splits)
qed

lemma walls_carve_le: "walls (carve m x y) \<le> walls m"
proof (cases "cell_at m x y")
  case None
  then show ?thesis by (simp add: carve_def)
next
  case (Some c)
  show ?thesis using walls_set_cell[OF Some, of "c\<lparr>t := FLOOR\<rparr>"] Some
    by (simp add: carve_def split: if_splits)
qed

lemma walls_carve_wall:
  "cell_at m x y = Some c \<Longrightarrow> t c = WALL \<Longrightarrow> walls (carve m x y) < walls m"
  using walls_set_cell[of m x y c "c\<lparr>t := FLOOR\<rparr>"]
  by (auto simp: carve_def)

lemma try_dirs_walls: "try_dirs m cx cy ds = Carved m' nx ny \<Longrightarrow> walls m' < walls m"
proof (induction ds)
  case Nil
  then show ?case by simp
next
  case (Cons d ds)
  obtain dx dy where d: "d = (dx, dy)" by (cases d)
  show ?case using Cons d
    by (auto simp: Let_def split: if_splits option.splits
        intro: le_less_trans[OF walls_carve_le walls_carve_wall])
qed

text \<open>
  The \<open>while (stack.length)\<close> loop. The list holds the stack with its top first.
  Every round either carves a Wall cell or pops, so the loop ends.
\<close>

function maze_loop :: "grid \<Rightarrow> (int \<times> int) list \<Rightarrow> rng \<Rightarrow> (grid \<times> rng) option" where
  "maze_loop m [] r = Some (m, r)"
| "maze_loop m ((cx, cy) # stack) r =
     (case shuffle r maze_dirs of
        (order, r') \<Rightarrow>
          (case try_dirs m cx cy order of
             Thrown \<Rightarrow> None
           | Blocked \<Rightarrow> maze_loop m stack r'
           | Carved m' nx ny \<Rightarrow> maze_loop m' ((nx, ny) # (cx, cy) # stack) r'))"
  by pat_completeness auto
termination maze_loop
proof (relation "measure (\<lambda>(m, stack, r). 2 * walls m + length stack)")
  show "wf (measure (\<lambda>(m, stack, r). 2 * walls m + length stack))" by simp
next
  fix m cx cy stack r x order r'
  show "((m, stack, r'), (m, (cx, cy) # stack, r))
      \<in> measure (\<lambda>(m, stack, r). 2 * walls m + length stack)"
    by simp
next
  fix m :: grid and cx cy stack and r :: rng and x order r' m' nx ny
  assume "try_dirs m cx cy order = Carved m' nx ny"
  then have "walls m' < walls m" by (rule try_dirs_walls)
  then show "((m', (nx, ny) # (cx, cy) # stack, r'), (m, (cx, cy) # stack, r))
      \<in> measure (\<lambda>(m, stack, r). 2 * walls m + length stack)"
    by simp
qed

text \<open>One room: every cell of the rectangle is carved, row by row.\<close>

definition carve_rect :: "grid \<Rightarrow> int \<Rightarrow> int \<Rightarrow> int \<Rightarrow> int \<Rightarrow> grid" where
  "carve_rect m rx ry rw rh =
     foldl (\<lambda>m' y. foldl (\<lambda>m'' x. carve m'' x y) m' [rx..rx + rw - 1]) m [ry..ry + rh - 1]"

fun punch_rooms :: "nat \<Rightarrow> int \<Rightarrow> int \<Rightarrow> grid \<Rightarrow> rng \<Rightarrow> grid \<times> rng" where
  "punch_rooms 0 w h m r = (m, r)"
| "punch_rooms (Suc n) w h m r =
     (let rw = randInt r 5 9;
          r1 = rest r;
          rh = randInt r1 4 7;
          r2 = rest r1;
          rx = randInt r2 1 (w - rw - 2);
          r3 = rest r2;
          ry = randInt r3 1 (h - rh - 2);
          r4 = rest r3
      in punch_rooms n w h (carve_rect m rx ry rw rh) r4)"

text \<open>
  The offsets around a light, in the order of the two nested loops (\<open>y\<close> outside), and
  the brightening of the cells at these offsets.
\<close>

definition light_offsets :: "(int \<times> int) list" where
  "light_offsets = concat (map (\<lambda>y. map (\<lambda>x. (x, y)) [-2..2]) [-2..2])"

definition glow_value :: "int \<Rightarrow> int \<Rightarrow> real" where
  "glow_value x y = clamp (1 - sqrt (of_int (x * x + y * y)) / 3) 0 1"

fun glow :: "grid \<Rightarrow> int \<Rightarrow> int \<Rightarrow> (int \<times> int) list \<Rightarrow> grid option" where
  "glow m lx ly [] = Some m"
| "glow m lx ly ((x, y) # offs) =
     (let nx = lx + x; ny = ly + y
      in if inBounds m nx ny
         then (case cell_at m nx ny of
                 None \<Rightarrow> None
               | Some c \<Rightarrow>
                   if t c = FLOOR
                   then glow (set_cell m nx ny (c\<lparr>light := max (light c) (glow_value x y)\<rparr>))
                          lx ly offs
                   else glow m lx ly offs)
         else glow m lx ly offs)"

fun place_lights :: "nat \<Rightarrow> int \<Rightarrow> int \<Rightarrow> grid \<Rightarrow> rng \<Rightarrow> (grid \<times> rng) option" where
  "place_lights 0 w h m r = Some (m, r)"
| "place_lights (Suc n) w h m r =
     (let lx = randInt r 2 (w - 3);
          ly = randInt (rest r) 2 (h - 3);
          r' = rest (rest r)
      in case cell_at m lx ly of
           None \<Rightarrow> None
         | Some c \<Rightarrow>
             if t c = FLOOR
             then (case glow m lx ly light_offsets of
                     None \<Rightarrow> None
                   | Some m' \<Rightarrow> place_lights n w h m' r')
             else place_lights n w h m r')"

definition generateLayout :: "nat \<Rightarrow> nat \<Rightarrow> rng \<Rightarrow> (grid \<times> rng) option" where
  "generateLayout w h r =
     (let m = makeEmptyMap w h;
          sx = (int w div 2) OR 1;
          sy = (int h div 2) OR 1
      in case maze_loop (carve m sx sy) [(sx, sy)] r of
           None \<Rightarrow> None
         | Some (m1, r1) \<Rightarrow>
             (case punch_rooms ((w * h) div 400) (int w) (int h) m1 r1 of
                (m2, r2) \<Rightarrow> place_lights ((w * h) div 200) (int w) (int h) m2 r2))"

section \<open>Entity placer\<close>

text \<open>
  The scan for Floor cells, row by row. \<open>map[0].length\<close> throws on a map without rows,
  and \<open>map[y][x].t\<close> throws in a row shorter than row 0.
\<close>

definition floor_list :: "grid \<Rightarrow> (int \<times> int) list option" where
  "floor_list m =
     (if m = [] then None
      else let w = length (m ! 0)
           in if \<exists>row \<in> set m. length row < w then None
              else Some (concat (map (\<lambda>y. map (\<lambda>x. (int x, int y))
                                       (filter (\<lambda>x. t (m ! y ! x) = FLOOR) [0..<w]))
                                  [0..<length m])))"

text \<open>
  \<open>pick\<close>: \<open>floors.splice(Math.floor(rng()*floors.length), 1)[0]\<close>; on an empty pool
  the result is \<open>undefined\<close> and the destructuring of the caller throws.
\<close>

definition pick :: "(int \<times> int) list \<Rightarrow> rng \<Rightarrow> ((int \<times> int) \<times> (int \<times> int) list \<times> rng) option" where
  "pick floors r =
     (let k = nat \<lfloor>draw r * real (length floors)\<rfloor>
      in if k < length floors
         then Some (floors ! k, take k floors @ drop (Suc k) floors, rest r)
         else None)"

text \<open>The search for the exit: the state of the loop is \<open>(ex, ey, bestD)\<close>.\<close>

fun find_exit ::
  "nat \<Rightarrow> (int \<times> int) list \<Rightarrow> int \<Rightarrow> int \<Rightarrow> int \<times> int \<times> int \<Rightarrow> rng
     \<Rightarrow> ((int \<times> int \<times> int) \<times> rng) option" where
  "find_exit 0 floors px py best r = Some (best, r)"
| "find_exit (Suc n) floors px py (ex, ey, bestD) r =
     (let k = nat \<lfloor>draw r * real (length floors)\<rfloor>
      in if k < length floors
         then (case floors ! k of
                 (x, y) \<Rightarrow>
                   let d = manhattan px py x y
                   in find_exit n floors px py
                        (if d > bestD then (x, y, d) else (ex, ey, bestD)) (rest r))
         else None)"

fun place_items ::
  "nat \<Rightarrow> grid \<Rightarrow> (int \<times> int) list \<Rightarrow> rng \<Rightarrow> (grid \<times> (int \<times> int) list \<times> rng) option" where
  "place_items 0 m floors r = Some (m, floors, r)"
| "place_items (Suc n) m floors r =
     (case pick floors r of
        None \<Rightarrow> None
      | Some ((x, y), floors', r') \<Rightarrow>
          (case cell_at m x y of
             None \<Rightarrow> None
           | Some c \<Rightarrow>
               place_items n
                 (if \<not> exit c then set_cell m x y (c\<lparr>item := Some Almond\<rparr>) else m)
                 floors' r'))"

fun place_hounds :: "nat \<Rightarrow> (int \<times> int) list \<Rightarrow> rng \<Rightarrow> (hound list \<times> rng) option" where
  "place_hounds 0 floors r = Some ([], r)"
| "place_hounds (Suc n) floors r =
     (case pick floors r of
        None \<Rightarrow> None
      | Some ((x, y), floors', r') \<Rightarrow>
          (case place_hounds n floors' (rest r') of
             None \<Rightarrow> None
           | Some (hs, r'') \<Rightarrow> Some (\<lparr>hx = x, hy = y, cooldown = randInt r' 0 2\<rparr> # hs, r'')))"

text \<open>\<open>placeThings\<close> returns the spawn and the hounds, and has marked the map.\<close>

definition placeThings :: "grid \<Rightarrow> rng \<Rightarrow> (grid \<times> int \<times> int \<times> hound list \<times> rng) option" where
  "placeThings m r =
     (case floor_list m of
        None \<Rightarrow> None
      | Some floors0 \<Rightarrow>
          (case pick floors0 r of
             None \<Rightarrow> None
           | Some ((px, py), floors, r1) \<Rightarrow>
               (case find_exit 200 floors px py (px, py, -1) r1 of
                  None \<Rightarrow> None
                | Some ((ex, ey, bestD), r2) \<Rightarrow>
                    (case cell_at m ex ey of
                       None \<Rightarrow> None
                     | Some ce \<Rightarrow>
                         (case place_items (max 5 (length floors div 120))
                                 (set_cell m ex ey (ce\<lparr>exit := True\<rparr>)) floors r2 of
                            None \<Rightarrow> None
                          | Some (m2, floors2, r3) \<Rightarrow>
                              (case place_hounds (max 1 (length floors2 div 800)) floors2 r3 of
                                 None \<Rightarrow> None
                               | Some (hs, r4) \<Rightarrow> Some (m2, px, py, hs, r4)))))))"

section \<open>Turn engine\<close>

record player =
  plx :: int
  ply :: int

datatype gameover = Dead | Win

text \<open>The texts shown to the player, by the place that sets them.\<close>

datatype message = MsgIntro | MsgStart | MsgDrank | MsgPickup | MsgWin | MsgDark
  | MsgCaught | MsgCollapsed

record state =
  smap :: grid
  player :: player
  hounds :: "hound list"
  sanity :: int
  bottles :: int
  turn :: int
  message :: message
  gameOver :: "gameover option"

text \<open>The world size of the game: 46 columns, 30 rows.\<close>

definition W :: nat where
  "W = 46"

definition H :: nat where
  "H = 30"

text \<open>\<open>drink\<close>: nothing without a bottle or after the end of the game.\<close>

definition drink :: "state \<Rightarrow> state" where
  "drink s =
     (if bottles s \<le> 0 \<or> gameOver s \<noteq> None then s
      else s\<lparr>bottles := bottles s - 1,
             sanity := clamp (sanity s + 35) 0 100,
             message := MsgDrank\<rparr>)"

text \<open>
  \<open>step(dx, dy)\<close>. The state updates of one call are applied together, in the order
  of the calls; \<open>sanity\<close> in the test for death is the value the call started with.
  The hounds are moved on \<open>map\<close>, the grid before the copy.
\<close>

definition step :: "int \<Rightarrow> int \<Rightarrow> rng \<Rightarrow> state \<Rightarrow> (state \<times> rng) option" where
  "step dx dy r s =
     (if gameOver s \<noteq> None then Some (s, r)
      else
        let nx = clamp (plx (player s) + dx) 0 (int W - 1);
            ny = clamp (ply (player s) + dy) 0 (int H - 1)
        in case cell_at (smap s) nx ny of
             None \<Rightarrow> None
           | Some c \<Rightarrow>
               if t c \<noteq> FLOOR then Some (s, r)
               else
                 let picked = (item c = Some Almond);
                     c' = (if picked then c\<lparr>seen := True, item := None\<rparr> else c\<lparr>seen := True\<rparr>);
                     copy = set_cell (smap s) nx ny c';
                     s1 = (if picked then s\<lparr>bottles := bottles s + 1\<rparr> else s)
                 in if exit c' then
                      Some (s1\<lparr>smap := copy, player := \<lparr>plx = nx, ply = ny\<rparr>,
                               turn := turn s + 1, gameOver := Some Win,
                               message := MsgWin\<rparr>, r)
                    else
                      let drain = (if light c' > 4 / 10 then 1 else 3);
                          msg = (if picked then Some MsgPickup
                                 else if drain \<ge> 3 then Some MsgDark else None);
                          s2 = s1\<lparr>smap := copy, player := \<lparr>plx = nx, ply = ny\<rparr>,
                                  sanity := clamp (sanity s - drain) 0 100,
                                  message := (case msg of None \<Rightarrow> message s | Some ms \<Rightarrow> ms)\<rparr>
                      in (case advance_hounds (smap s) nx ny (hounds s) r of
                           None \<Rightarrow> None
                         | Some (nextH, r') \<Rightarrow>
                             let s3 = s2\<lparr>hounds := nextH\<rparr>
                             in if \<exists>h \<in> set nextH. hx h = nx \<and> hy h = ny then
                                  Some (s3\<lparr>gameOver := Some Dead, message := MsgCaught\<rparr>, r')
                                else if sanity s - drain \<le> 0 then
                                  Some (s3\<lparr>gameOver := Some Dead, message := MsgCollapsed\<rparr>, r')
                                else Some (s3\<lparr>turn := turn s + 1\<rparr>, r')))"

text \<open>
  The session a seed starts: the placement effect generates the layout, places the
  things, marks the spawn as seen and resets the counters.
\<close>

definition new_session :: "rng \<Rightarrow> (state \<times> rng) option" where
  "new_session r =
     (case generateLayout W H r of
        None \<Rightarrow> None
      | Some (newMap, r1) \<Rightarrow>
          (case placeThings newMap r1 of
             None \<Rightarrow> None
           | Some (m, px, py, hs, r2) \<Rightarrow>
               (case cell_at m px py of
                  None \<Rightarrow> None
                | Some c \<Rightarrow>
                    Some (\<lparr>smap = set_cell m px py (c\<lparr>seen := True\<rparr>),
                           player = \<lparr>plx = px, ply = py\<rparr>, hounds = hs, sanity = 100,
                           bottles = 0, turn = 0, message = MsgStart, gameOver = None\<rparr>, r2))))"

text \<open>
  The flicker effect runs when \<open>turn\<close> has changed: every cell with some light gets
  a new light value, from one draw each, row by row.
\<close>

fun flicker_row :: "cell list \<Rightarrow> rng \<Rightarrow> cell list \<times> rng" where
  "flicker_row [] r = ([], r)"
| "flicker_row (c # cs) r =
     (if light c > 0
      then (case flicker_row cs (rest r) of
              (cs', r') \<Rightarrow>
                (c\<lparr>light := clamp (light c + (draw r - 1 / 2) * (5 / 100)) (1 / 10) 1\<rparr> # cs', r'))
      else (case flicker_row cs r of (cs', r') \<Rightarrow> (c # cs', r')))"

fun flicker :: "grid \<Rightarrow> rng \<Rightarrow> grid \<times> rng" where
  "flicker [] r = ([], r)"
| "flicker (row # rows) r =
     (case flicker_row row r of
        (row', r') \<Rightarrow> (case flicker rows r' of (rows', r'') \<Rightarrow> (row' # rows', r'')))"

text \<open>
  The player's actions, and a run of them on one stream of \<open>Math.random\<close> draws. A
  resolved step that changed \<open>turn\<close> is followed by the flicker effect.
\<close>

datatype action = Move int int | Drink

fun run :: "action list \<Rightarrow> rng \<Rightarrow> state \<Rightarrow> (state \<times> rng) option" where
  "run [] r s = Some (s, r)"
| "run (Drink # acts) r s = run acts r (drink s)"
| "run (Move dx dy # acts) r s =
     (case step dx dy r s of
        None \<Rightarrow> None
      | Some (s', r') \<Rightarrow>
          if turn s' \<noteq> turn s
          then (case flicker (smap s') r' of (m', r'') \<Rightarrow> run acts r'' (s'\<lparr>smap := m'\<rparr>))
          else run acts r' s')"

section \<open>Notions the properties are stated with\<close>

text \<open>All rows as long as row 0, as in every map \<open>makeEmptyMap\<close> builds.\<close>

definition rect :: "grid \<Rightarrow> bool" where
  "rect m \<longleftrightarrow> (\<forall>row \<in> set m. length row = length (m ! 0))"

text \<open>A map of \<open>h\<close> rows of \<open>w\<close> cells.\<close>

definition dims :: "nat \<Rightarrow> nat \<Rightarrow> grid \<Rightarrow> bool" where
  "dims w h m \<longleftrightarrow> length m = h \<and> (\<forall>row \<in> set m. length row = w)"

text \<open>An in-bounds Floor cell.\<close>

definition floor_at :: "grid \<Rightarrow> int \<Rightarrow> int \<Rightarrow> bool" where
  "floor_at m x y \<longleftrightarrow>
     inBounds m x y \<and> (case cell_at m x y of Some c \<Rightarrow> t c = FLOOR | None \<Rightarrow> False)"

section \<open>Example inputs\<close>

text \<open>A Floor cell as \<open>carve\<close> leaves it.\<close>

definition floor_cell :: cell where
  "floor_cell = \<lparr>t = FLOOR, light = 0, seen = False, item = None, exit = False\<rparr>"

text \<open>A map of the game's size without walls.\<close>

definition open_grid :: grid where
  "open_grid = replicate 30 (replicate 46 floor_cell)"

text \<open>The stream whose draws are all 0.\<close>

definition rng0 :: rng where
  "rng0 = (\<lambda>n. 0)"

text \<open>The stream whose draws are all one half.\<close>

definition rng_half :: rng where
  "rng_half = (\<lambda>n. 1 / 2)"

text \<open>The player at (5,5) with a hound two cells to the right.\<close>

definition caught_state :: state where
  "caught_state = \<lparr>smap = open_grid, player = \<lparr>plx = 5, ply = 5\<rparr>,
     hounds = [\<lparr>hx = 7, hy = 5, cooldown = 0\<rparr>], sanity = 100, bottles = 0, turn = 0,
     message = MsgStart, gameOver = None\<rparr>"

text \<open>The player on the last column, no hound.\<close>

definition edge_state :: state where
  "edge_state = \<lparr>smap = open_grid, player = \<lparr>plx = 45, ply = 5\<rparr>,
     hounds = [], sanity = 100, bottles = 0, turn = 0,
     message = MsgStart, gameOver = None\<rparr>"

text \<open>The exit one cell to the right of the player, and a hound nearby.\<close>

definition goal_state :: state where
  "goal_state = \<lparr>smap = set_cell open_grid 6 5 (floor_cell\<lparr>exit := True\<rparr>),
     player = \<lparr>plx = 5, ply = 5\<rparr>,
     hounds = [\<lparr>hx = 7, hy = 5, cooldown = 0\<rparr>], sanity = 100, bottles = 0, turn = 0,
     message = MsgStart, gameOver = None\<rparr>"

text \<open>A game that has been lost.\<close>

definition lost_state :: state where
  "lost_state = caught_state\<lparr>gameOver := Some Dead, bottles := 2\<rparr>"

text \<open>The stream after \<open>n\<close> draws.\<close>

definition after :: "nat \<Rightarrow> rng \<Rightarrow> rng" where
  "after n r = (\<lambda>i. r (i + n))"

text \<open>
  The map \<open>generateLayout\<close> returns for 5 columns and 5 rows when all draws are 0
  (lemma \<open>gen5\<close>): seven Floor cells, no room, no light.
\<close>

definition g5 :: grid where
  "g5 = [[empty_cell, empty_cell, empty_cell, empty_cell, empty_cell],
         [empty_cell, floor_cell, floor_cell, floor_cell, empty_cell],
         [empty_cell, floor_cell, empty_cell, empty_cell, empty_cell],
         [empty_cell, floor_cell, floor_cell, floor_cell, empty_cell],
         [empty_cell, empty_cell, empty_cell, empty_cell, empty_cell]]"

text \<open>The stream with first draw 0 and all later draws one half.\<close>

definition rng_goal :: rng where
  "rng_goal = (\<lambda>n. if n = 0 then 0 else 1 / 2)"


text \<open>The coordinates of the cells marked as exit, row by row.\<close>

definition exit_cells :: "grid \<Rightarrow> (int \<times> int) list" where
  "exit_cells m =
     concat (map (\<lambda>y. map (\<lambda>x. (int x, int y))
                          (filter (\<lambda>x. exit (m ! y ! x)) [0..<length (m ! 0)]))
                 [0..<length m])"

text \<open>
  The goal search as the specification words it: the 200 draws index the floor list
  from before the spawn was taken out of it. It is compared with \<open>placeThings\<close> below.
\<close>

definition goal_by_spec :: "grid \<Rightarrow> rng \<Rightarrow> (int \<times> int) option" where
  "goal_by_spec m r =
     (case floor_list m of
        None \<Rightarrow> None
      | Some floors0 \<Rightarrow>
          (case pick floors0 r of
             None \<Rightarrow> None
           | Some ((px, py), floors, r1) \<Rightarrow>
               (case find_exit 200 floors0 px py (px, py, -1) r1 of
                  None \<Rightarrow> None
                | Some ((ex, ey, bestD), r2) \<Rightarrow> Some (ex, ey))))"

text \<open>A Floor cell with a bottle, and a Floor cell marked as exit.\<close>

definition item_cell :: cell where
  "item_cell = \<lparr>t = FLOOR, light = 0, seen = False, item = Some Almond, exit = False\<rparr>"

definition exit_cell :: cell where
  "exit_cell = \<lparr>t = FLOOR, light = 0, seen = False, item = None, exit = True\<rparr>"

text \<open>The map \<open>g5\<close> after \<open>placeThings\<close> on \<open>rng_goal\<close>, and after its exit mark alone.\<close>

definition g5_goal :: grid where
  "g5_goal = [[empty_cell, empty_cell, empty_cell, empty_cell, empty_cell],
         [empty_cell, floor_cell, floor_cell, item_cell, empty_cell],
         [empty_cell, item_cell, empty_cell, empty_cell, empty_cell],
         [empty_cell, exit_cell, item_cell, item_cell, empty_cell],
         [empty_cell, empty_cell, empty_cell, empty_cell, empty_cell]]"

definition g5_exit :: grid where
  "g5_exit = [[empty_cell, empty_cell, empty_cell, empty_cell, empty_cell],
         [empty_cell, floor_cell, floor_cell, floor_cell, empty_cell],
         [empty_cell, floor_cell, empty_cell, empty_cell, empty_cell],
         [empty_cell, exit_cell, floor_cell, floor_cell, empty_cell],
         [empty_cell, empty_cell, empty_cell, empty_cell, empty_cell]]"

text \<open>The coordinates of the cells that hold an item, row by row.\<close>

definition item_cells :: "grid \<Rightarrow> (int \<times> int) list" where
  "item_cells m =
     concat (map (\<lambda>y. map (\<lambda>x. (int x, int y))
                          (filter (\<lambda>x. item (m ! y ! x) \<noteq> None) [0..<length (m ! 0)]))
                 [0..<length m])"

text \<open>The map \<open>g5\<close> after \<open>placeThings\<close> on \<open>rng_late\<close>, and after its exit mark alone.\<close>

definition g5_late :: grid where
  "g5_late = [[empty_cell, empty_cell, empty_cell, empty_cell, empty_cell],
         [empty_cell, floor_cell, item_cell, item_cell, empty_cell],
         [empty_cell, item_cell, empty_cell, empty_cell, empty_cell],
         [empty_cell, item_cell, item_cell, exit_cell, empty_cell],
         [empty_cell, empty_cell, empty_cell, empty_cell, empty_cell]]"


text \<open>The maze and the rooms leave the light at 0 and the shape as it is.\<close>

definition dark :: "grid \<Rightarrow> bool" where
  "dark m \<longleftrightarrow> (\<forall>x y c. cell_at m x y = Some c \<longrightarrow> light c = 0)"

text \<open>
  The lights that lit: of the \<open>n\<close> drawn coordinates, in their order, those whose cell is
  Floor.
\<close>

fun light_sources :: "nat \<Rightarrow> int \<Rightarrow> int \<Rightarrow> grid \<Rightarrow> rng \<Rightarrow> (int \<times> int) list" where
  "light_sources 0 w h m r = []"
| "light_sources (Suc n) w h m r =
     (let lx = randInt r 2 (w - 3);
          ly = randInt (rest r) 2 (h - 3)
      in (if map_option t (cell_at m lx ly) = Some FLOOR then [(lx, ly)] else [])
         @ light_sources n w h m (rest (rest r)))"

text \<open>
  The greatest of a light value \<open>l0\<close> and of \<open>clamp(1 - d/3, 0, 1)\<close> over the
  sources, \<open>d\<close> the Euclidean distance from \<open>(x, y)\<close> to the source.
\<close>

definition brightest :: "(int \<times> int) list \<Rightarrow> int \<Rightarrow> int \<Rightarrow> real \<Rightarrow> real" where
  "brightest srcs x y l0 = fold (\<lambda>(lx, ly) v. max v (glow_value (x - lx) (y - ly))) srcs l0"

text \<open>The coordinates of the cells with some light, row by row.\<close>

definition lit_cells :: "grid \<Rightarrow> (int \<times> int) list" where
  "lit_cells m =
     concat (map (\<lambda>y. map (\<lambda>x. (int x, int y))
                          (filter (\<lambda>x. light (m ! y ! x) \<noteq> 0) [0..<length (m ! 0)]))
                 [0..<length m])"

text \<open>A row of cells from a picture: \<open>#\<close> is Floor, anything else Wall.\<close>

definition cells_of :: "string \<Rightarrow> cell list" where
  "cells_of s = map (\<lambda>ch. if ch = CHR ''#'' then floor_cell else empty_cell) s"

text \<open>
  The map \<open>generateLayout\<close> returns for 20 columns and 10 rows when all draws are 0
  (lemma \<open>gen20\<close>): the maze, no room, and one light drawn at (2,2), a Wall cell.
\<close>

definition g20 :: grid where
  "g20 = map cells_of
     [''....................'',
      ''.###############.###'',
      ''.#.............#...#'',
      ''.#############.###.#'',
      ''.............#...#.#'',
      ''.###########.###.#.#'',
      ''.#.............#.#.#'',
      ''.#.###.###.###.#.#.#'',
      ''.#.#.#.#.#.#.#.#.#.#'',
      ''.###.###.###.###.###'']"

text \<open>Two coordinates one axis-aligned step apart.\<close>

definition adjacent :: "int \<times> int \<Rightarrow> int \<times> int \<Rightarrow> bool" where
  "adjacent a b \<longleftrightarrow> \<bar>fst a - fst b\<bar> + \<bar>snd a - snd b\<bar> = 1"

text \<open>A path: a non-empty list of Floor cells, each adjacent to the next.\<close>

fun walk :: "grid \<Rightarrow> (int \<times> int) list \<Rightarrow> bool" where
  "walk m [] = False"
| "walk m [a] = floor_at m (fst a) (snd a)"
| "walk m (a # b # p) = (floor_at m (fst a) (snd a) \<and> adjacent a b \<and> walk m (b # p))"

text \<open>Every Floor cell is joined to every other by a path.\<close>

definition connected :: "grid \<Rightarrow> bool" where
  "connected m \<longleftrightarrow>
     (\<forall>a b. floor_at m (fst a) (snd a) \<and> floor_at m (fst b) (snd b) \<longrightarrow>
        (\<exists>p. walk m p \<and> hd p = a \<and> last p = b))"

definition joined :: "grid \<Rightarrow> int \<times> int \<Rightarrow> int \<times> int \<Rightarrow> bool" where
  "joined m a b \<longleftrightarrow> (\<exists>p. walk m p \<and> hd p = a \<and> last p = b)"

text \<open>
  The invariant of the loop, for a map of \<open>w\<close> by \<open>h\<close> cells and the start cell
  \<open>s\<close>: every Floor cell is joined to \<open>s\<close>; the cells of the stack are Floor cells
  with odd coordinates; and a Floor cell with odd coordinates that has left the stack has
  no in-bounds neighbour two steps away that is still Wall.
\<close>

definition maze_inv :: "nat \<Rightarrow> nat \<Rightarrow> int \<times> int \<Rightarrow> grid \<Rightarrow> (int \<times> int) list \<Rightarrow> bool" where
  "maze_inv w h s m stack \<longleftrightarrow>
     dims w h m
   \<and> (\<forall>a. floor_at m (fst a) (snd a) \<longrightarrow> joined m a s)
   \<and> (\<forall>(x, y) \<in> set stack. odd x \<and> odd y \<and> floor_at m x y)
   \<and> (\<forall>x y. floor_at m x y \<and> odd x \<and> odd y \<and> (x, y) \<notin> set stack \<longrightarrow>
         (\<forall>(dx, dy) \<in> set maze_dirs.
            inBounds m (x + dx) (y + dy) \<longrightarrow> floor_at m (x + dx) (y + dy)))"

text \<open>
  The invariant of the room loop: every Floor cell is joined to \<open>s\<close>, and every cell
  with odd coordinates inside the map is Floor.
\<close>

definition room_inv :: "nat \<Rightarrow> nat \<Rightarrow> int \<times> int \<Rightarrow> grid \<Rightarrow> bool" where
  "room_inv w h s m \<longleftrightarrow>
     dims w h m
   \<and> (\<forall>a. floor_at m (fst a) (snd a) \<longrightarrow> joined m a s)
   \<and> (\<forall>x y. odd x \<and> odd y \<and> inBounds m x y \<longrightarrow> floor_at m x y)"

text \<open>The stream whose draws are all one half, but for draw 5, which is 0.\<close>

definition rng_rooms :: rng where
  "rng_rooms = (\<lambda>n. if n = 5 then 0 else 1 / 2)"

text \<open>
  A cooling hound far away, a hound out of range and a hound three cells to the right of
  the cell the player steps onto.
\<close>

definition pack_state :: state where
  "pack_state = \<lparr>smap = open_grid, player = \<lparr>plx = 5, ply = 5\<rparr>,
     hounds = [\<lparr>hx = 20, hy = 20, cooldown = 2\<rparr>, \<lparr>hx = 30, hy = 20, cooldown = 0\<rparr>,
               \<lparr>hx = 9, hy = 5, cooldown = 0\<rparr>],
     sanity = 100, bottles = 0, turn = 0, message = MsgStart, gameOver = None\<rparr>"

text \<open>
  The coordinates the lighting pass draws, in their order: two draws for each of the \<open>n\<close>
  lights, whatever cell they land on.
\<close>

fun light_draws :: "nat \<Rightarrow> int \<Rightarrow> int \<Rightarrow> rng \<Rightarrow> (int \<times> int) list" where
  "light_draws 0 w h r = []"
| "light_draws (Suc n) w h r =
     (randInt r 2 (w - 3), randInt (rest r) 2 (h - 3)) # light_draws n w h (rest (rest r))"

text \<open>The stream whose draws are all three fifths.\<close>

definition rng_mid :: rng where
  "rng_mid = (\<lambda>n. 3 / 5)"

section \<open>Random draws and the shuffle\<close>

lemma unit_draws_rest: "unit_draws r \<Longrightarrow> unit_draws (rest r)"
  by (auto simp: unit_draws_def rest_def)

lemma unit_draws_draw: "unit_draws r \<Longrightarrow> 0 \<le> draw r \<and> draw r < 1"
  by (auto simp: unit_draws_def draw_def)

lemma draw_index: 
  assumes "unit_draws r" and "0 < n"
  shows "nat \<lfloor>draw r * real n\<rfloor> < n"
proof -
  have d: "0 \<le> draw r" "draw r < 1" using unit_draws_draw[OF assms(1)] by auto
  have "draw r * real n < real n" using d assms(2) by simp
  then have "\<lfloor>draw r * real n\<rfloor> < int n" by (simp add: floor_less_iff)
  then show ?thesis using assms(2) by linarith
qed

lemma shuffle_from_set:
  "unit_draws r \<Longrightarrow> k < length a \<Longrightarrow>
     set (fst (shuffle_from k a r)) = set a \<and> length (fst (shuffle_from k a r)) = length a"
proof (induction k arbitrary: a r)
  case 0
  then show ?case by simp
next
  case (Suc k)
  let ?j = "nat \<lfloor>draw r * real (Suc k + 1)\<rfloor>"
  have "?j < Suc k + 1" by (rule draw_index[OF Suc.prems(1)]) simp
  then have j: "?j < length a" using Suc.prems(2) by linarith
  have "set (a[Suc k := a ! ?j, ?j := a ! Suc k]) = set a"
    using set_swap[OF _ j, of "Suc k"] Suc.prems(2) by simp
  then show ?case
    using Suc.IH[OF unit_draws_rest[OF Suc.prems(1)], of "a[Suc k := a ! ?j, ?j := a ! Suc k]"]
      Suc.prems(2)
    by (simp add: Let_def)
qed

lemma shuffle_set: "unit_draws r \<Longrightarrow> set (fst (shuffle r a)) = set a"
  by (cases a) (auto simp: shuffle_def shuffle_from_set)

lemma unit_draws_shuffle_from: "unit_draws r \<Longrightarrow> unit_draws (snd (shuffle_from k a r))"
  by (induction k arbitrary: a r) (auto simp: Let_def unit_draws_rest)

lemma unit_draws_shuffle: "unit_draws r \<Longrightarrow> unit_draws (snd (shuffle r a))"
  by (simp add: shuffle_def unit_draws_shuffle_from)

lemma rest_rng0: "rest rng0 = rng0"
  by (simp add: rest_def rng0_def)

lemma draw_rng0: "draw rng0 = 0"
  by (simp add: draw_def rng0_def)

lemma unit_draws_rng0: "unit_draws rng0"
  by (simp add: unit_draws_def rng0_def)

lemma shuffle_rng0: "shuffle rng0 unit_dirs = ([(-1, 0), (0, 1), (0, -1), (1, 0)], rng0)"
  by (simp add: shuffle_def unit_dirs_def numeral_3_eq_3 draw_rng0 rest_rng0 Let_def)

section \<open>Grids\<close>

lemma dims_rect: "dims w h m \<Longrightarrow> rect m"
  by (cases m) (auto simp: dims_def rect_def)

lemma rect_cell_at:
  assumes "rect m" "inBounds m x y"
  shows "\<exists>c. cell_at m x y = Some c"
proof -
  have y: "nat y < length m" using assms(2) by (auto simp: inBounds_def)
  then have "m ! nat y \<in> set m" by simp
  then have "length (m ! nat y) = length (m ! 0)" using assms(1) by (simp add: rect_def)
  then show ?thesis using assms(2) y by (simp add: cell_at_def inBounds_def)
qed

lemma dims_cell_at:
  assumes "dims w h m" "0 \<le> x" "x < int w" "0 \<le> y" "y < int h"
  shows "\<exists>c. cell_at m x y = Some c"
proof -
  have y: "nat y < length m" using assms by (simp add: dims_def)
  then have "m ! nat y \<in> set m" by simp
  then have "length (m ! nat y) = w" using assms(1) by (simp add: dims_def)
  then show ?thesis using assms y by (simp add: cell_at_def)
qed

lemma dims_set_cell:
  assumes "dims w h m"
  shows "dims w h (set_cell m x y c)"
proof (cases "nat y < length m")
  case True
  then have "m ! nat y \<in> set m" by simp
  then have "length ((m ! nat y)[nat x := c]) = w" using assms by (simp add: dims_def)
  then show ?thesis
    using assms set_update_subset_insert[of m "nat y" "(m ! nat y)[nat x := c]"]
    by (auto simp: dims_def set_cell_def)
next
  case False
  then have "m[nat y := (m ! nat y)[nat x := c]] = m" by (simp add: list_update_beyond)
  then show ?thesis using assms by (simp add: set_cell_def)
qed

lemma dims_open_grid: "dims W H open_grid"
  by (simp add: dims_def open_grid_def W_def H_def)

lemma cell_open:
  "0 \<le> x \<Longrightarrow> x < 46 \<Longrightarrow> 0 \<le> y \<Longrightarrow> y < 30 \<Longrightarrow> cell_at open_grid x y = Some floor_cell"
  by (simp add: cell_at_def open_grid_def)

lemma inBounds_open: "inBounds open_grid x y \<longleftrightarrow> 0 \<le> y \<and> y < 30 \<and> 0 \<le> x \<and> x < 46"
  by (auto simp add: inBounds_def open_grid_def)

section \<open>The pursuit\<close>

lemma first_legal_total: "rect m \<Longrightarrow> \<exists>h'. first_legal m h ds = Some h'"
proof (induction ds)
  case Nil
  then show ?case by simp
next
  case (Cons d ds)
  obtain dx dy where d: "d = (dx, dy)" by (cases d)
  show ?case using Cons d rect_cell_at[of m "hx h + dx" "hy h + dy"]
    by (auto simp: Let_def split: option.splits)
qed

lemma stepHound_total:
  assumes "rect m"
  shows "\<exists>h' r'. stepHound m h tx ty r = Some (h', r')"
proof -
  obtain sh r' where sh: "shuffle r unit_dirs = (sh, r')" by (cases "shuffle r unit_dirs")
  from first_legal_total[OF assms] obtain h' where
    "first_legal m h (sort_key (\<lambda>(dx, dy). manhattan (hx h + dx) (hy h + dy) tx ty) sh) = Some h'"
    by blast
  then show ?thesis using sh by (simp add: stepHound_def)
qed

lemma hound_turn_total: "rect m \<Longrightarrow> \<exists>h' r'. hound_turn m tx ty h r = Some (h', r')"
  using stepHound_total[of m h tx ty] by (auto simp: hound_turn_def Let_def)

lemma advance_hounds_total: "rect m \<Longrightarrow> \<exists>hs' r'. advance_hounds m tx ty hs r = Some (hs', r')"
proof (induction hs arbitrary: r)
  case Nil
  then show ?case by simp
next
  case (Cons h hs)
  from hound_turn_total[OF Cons.prems, of tx ty h r] obtain h' r1 where
    a: "hound_turn m tx ty h r = Some (h', r1)" by blast
  from Cons.IH[OF Cons.prems, of r1] obtain hs' r2 where
    b: "advance_hounds m tx ty hs r1 = Some (hs', r2)" by blast
  show ?case using a b by simp
qed

lemma first_legal_filter:
  assumes "rect m"
  shows "first_legal m h ds =
     Some (case filter (\<lambda>(dx, dy). floor_at m (hx h + dx) (hy h + dy)) ds of
             [] \<Rightarrow> h
           | (dx, dy) # _ \<Rightarrow> h\<lparr>hx := hx h + dx, hy := hy h + dy\<rparr>)"
proof (induction ds)
  case Nil
  then show ?case by simp
next
  case (Cons d ds)
  obtain dx dy where d: "d = (dx, dy)" by (cases d)
  show ?case using Cons d rect_cell_at[OF assms, of "hx h + dx" "hy h + dy"]
    by (auto simp: floor_at_def Let_def split: option.splits)
qed

lemma sorted_filter_least:
  "sorted (map f xs) \<Longrightarrow> filter P xs = d # ds \<Longrightarrow> e \<in> set xs \<Longrightarrow> P e \<Longrightarrow> f d \<le> f e"
proof (induction xs)
  case Nil
  then show ?case by simp
next
  case (Cons x xs)
  then show ?case by (auto split: if_splits)
qed

lemma filter_first_conj:
  "filter P xs = d # ds \<Longrightarrow> Q d \<Longrightarrow> \<exists>ds'. filter (\<lambda>x. P x \<and> Q x) xs = d # ds'"
proof (induction xs)
  case Nil
  then show ?case by simp
next
  case (Cons x xs)
  then show ?case by (auto split: if_splits)
qed

lemma sort_key_first_tie:
  assumes "filter P (sort_key f xs) = d # ds"
  shows "\<exists>ds'. filter (\<lambda>x. P x \<and> f x = f d) xs = d # ds'"
proof -
  from filter_first_conj[OF assms, of "\<lambda>x. f x = f d"]
  obtain ds' where "filter (\<lambda>x. P x \<and> f x = f d) (sort_key f xs) = d # ds'" by auto
  moreover have "filter (\<lambda>x. P x \<and> f x = f d) (sort_key f xs)
      = filter P (filter (\<lambda>x. f x = f d) (sort_key f xs))"
    by (simp add: conj_commute)
  moreover have "filter P (filter (\<lambda>x. f x = f d) xs) = filter (\<lambda>x. P x \<and> f x = f d) xs"
    by (simp add: conj_commute)
  ultimately show ?thesis by (simp only: sort_key_stable) simp
qed


lemma stepHound_moves:
  assumes "rect m" "unit_draws r"
  shows "\<exists>h'. stepHound m h tx ty r = Some (h', snd (shuffle r unit_dirs))
     \<and> cooldown h' = cooldown h \<and>
     (if \<exists>(dx, dy) \<in> set unit_dirs. floor_at m (hx h + dx) (hy h + dy)
      then (\<exists>(dx, dy) \<in> set unit_dirs. hx h' = hx h + dx \<and> hy h' = hy h + dy
             \<and> floor_at m (hx h') (hy h')
             \<and> (\<forall>(ex, ey) \<in> set unit_dirs. floor_at m (hx h + ex) (hy h + ey) \<longrightarrow>
                   manhattan (hx h') (hy h') tx ty \<le> manhattan (hx h + ex) (hy h + ey) tx ty)
             \<and> (\<exists>ds. filter (\<lambda>(ex, ey). floor_at m (hx h + ex) (hy h + ey)
                                 \<and> manhattan (hx h + ex) (hy h + ey) tx ty
                                     = manhattan (hx h') (hy h') tx ty)
                         (fst (shuffle r unit_dirs)) = (dx, dy) # ds))
      else h' = h)"
proof -
  define f where "f = (\<lambda>(dx, dy). manhattan (hx h + dx) (hy h + dy) tx ty)"
  define P where "P = (\<lambda>(dx, dy). floor_at m (hx h + dx) (hy h + dy))"
  obtain sh r' where sh: "shuffle r unit_dirs = (sh, r')" by (cases "shuffle r unit_dirs")
  have st: "set sh = set unit_dirs" using shuffle_set[OF assms(2), of unit_dirs] sh by simp
  let ?ds = "sort_key f sh"
  have sd: "set ?ds = set unit_dirs" using st by simp
  have so: "sorted (map f ?ds)" by (rule sorted_sort_key)
  define h' where "h' = (case filter P ?ds of [] \<Rightarrow> h
           | (dx, dy) # _ \<Rightarrow> h\<lparr>hx := hx h + dx, hy := hy h + dy\<rparr>)"
  have r: "stepHound m h tx ty r = Some (h', snd (shuffle r unit_dirs))"
    using sh first_legal_filter[OF assms(1), of h ?ds]
    by (simp add: stepHound_def f_def h'_def P_def)
  have cd: "cooldown h' = cooldown h"
    by (simp add: h'_def split: list.splits prod.splits)
  show ?thesis
  proof (cases "filter P ?ds")
    case Nil
    then have "\<not> (\<exists>d \<in> set unit_dirs. P d)" using sd by (auto simp: filter_empty_conv)
    then have "\<not> (\<exists>(dx, dy) \<in> set unit_dirs. floor_at m (hx h + dx) (hy h + dy))"
      by (auto simp: P_def)
    moreover have "h' = h" using Nil by (simp add: h'_def)
    ultimately show ?thesis using r cd by auto
  next
    case (Cons d ds)
    obtain dx dy where d: "d = (dx, dy)" by (cases d)
    have dm: "d \<in> set (filter P ?ds)" using Cons by simp
    then have din: "(dx, dy) \<in> set unit_dirs" and Pd: "P (dx, dy)" using sd d by auto
    have hh: "hx h' = hx h + dx" "hy h' = hy h + dy" using Cons d by (simp_all add: h'_def)
    have fd: "f (dx, dy) = manhattan (hx h') (hy h') tx ty" using hh by (simp add: f_def)
    have fl: "floor_at m (hx h') (hy h')" using Pd hh by (simp add: P_def)
    have least: "\<forall>(ex, ey) \<in> set unit_dirs. floor_at m (hx h + ex) (hy h + ey) \<longrightarrow>
                   manhattan (hx h') (hy h') tx ty \<le> manhattan (hx h + ex) (hy h + ey) tx ty"
    proof (clarify)
      fix ex ey assume e: "(ex, ey) \<in> set unit_dirs" "floor_at m (hx h + ex) (hy h + ey)"
      have "f d \<le> f (ex, ey)"
        by (rule sorted_filter_least[OF so Cons]) (use e sd in \<open>auto simp: P_def\<close>)
      then show "manhattan (hx h') (hy h') tx ty \<le> manhattan (hx h + ex) (hy h + ey) tx ty"
        using fd d by (simp add: f_def)
    qed
    from sort_key_first_tie[OF Cons] obtain ds' where
      "filter (\<lambda>x. P x \<and> f x = f d) sh = d # ds'" by blast
    moreover have "(\<lambda>x. P x \<and> f x = f d) = (\<lambda>(ex, ey). floor_at m (hx h + ex) (hy h + ey)
                                 \<and> manhattan (hx h + ex) (hy h + ey) tx ty
                                     = manhattan (hx h') (hy h') tx ty)"
      using fd d by (auto simp: P_def f_def fun_eq_iff)
    ultimately have tie: "\<exists>ds. filter (\<lambda>(ex, ey). floor_at m (hx h + ex) (hy h + ey)
                                 \<and> manhattan (hx h + ex) (hy h + ey) tx ty
                                     = manhattan (hx h') (hy h') tx ty)
                         (fst (shuffle r unit_dirs)) = (dx, dy) # ds"
      using sh d by simp
    have ex: "\<exists>(dx, dy) \<in> set unit_dirs. floor_at m (hx h + dx) (hy h + dy)"
      using din Pd by (auto simp: P_def)
    show ?thesis using r cd ex din hh fl least tie
      by (auto simp del: split_paired_Ex)
  qed
qed

lemma stepHound_caught:
  "stepHound open_grid \<lparr>hx = 7, hy = 5, cooldown = 0\<rparr> 6 5 rng0
     = Some (\<lparr>hx = 6, hy = 5, cooldown = 0\<rparr>, rng0)"
  by (simp add: stepHound_def shuffle_rng0 manhattan_def inBounds_open cell_open floor_cell_def)

lemma advance_caught:
  "advance_hounds open_grid 6 5 [\<lparr>hx = 7, hy = 5, cooldown = 0\<rparr>] rng0
     = Some ([\<lparr>hx = 6, hy = 5, cooldown = 0\<rparr>], rng0)"
  by (simp add: hound_turn_def manhattan_def stepHound_caught)

section \<open>The turn engine\<close>

lemma step_caught_state:
  "step 1 0 rng0 caught_state =
     Some (caught_state\<lparr>smap := set_cell open_grid 6 5 (floor_cell\<lparr>seen := True\<rparr>),
             player := \<lparr>plx = 6, ply = 5\<rparr>, sanity := 97, message := MsgCaught,
             hounds := [\<lparr>hx = 6, hy = 5, cooldown = 0\<rparr>], gameOver := Some Dead\<rparr>, rng0)"
  by (simp add: step_def caught_state_def clamp_def W_def H_def cell_open floor_cell_def
      advance_caught Let_def del: advance_hounds.simps)

lemma step_edge_state:
  "step 1 0 rng0 edge_state =
     Some (edge_state\<lparr>smap := set_cell open_grid 45 5 (floor_cell\<lparr>seen := True\<rparr>),
             sanity := 97, message := MsgDark, turn := 1\<rparr>, rng0)"
  by (simp add: step_def edge_state_def clamp_def W_def H_def cell_open floor_cell_def Let_def)

lemma cell_goal: "cell_at (smap goal_state) 6 5 = Some (floor_cell\<lparr>exit := True\<rparr>)"
  by (simp add: goal_state_def cell_at_def set_cell_def open_grid_def)

text \<open>
  C1 as stated fails: the hound steps onto the player's new cell, the game is lost, and
  the sanity has gone from 100 to 97.
\<close>

theorem caught_sanity_counterexample:
  "gameOver caught_state = None
   \<and> map_option t (cell_at (smap caught_state) (plx (player caught_state) + 1) (ply (player caught_state))) = Some FLOOR
   \<and> map_option (player \<circ> fst) (step 1 0 rng0 caught_state) = Some \<lparr>plx = 6, ply = 5\<rparr>
   \<and> map_option (hounds \<circ> fst) (step 1 0 rng0 caught_state) = Some [\<lparr>hx = 6, hy = 5, cooldown = 0\<rparr>]
   \<and> map_option (gameOver \<circ> fst) (step 1 0 rng0 caught_state) = Some (Some Dead)
   \<and> sanity caught_state = 100
   \<and> map_option (sanity \<circ> fst) (step 1 0 rng0 caught_state) = Some 97"
  unfolding step_caught_state
  by (simp add: caught_state_def cell_open floor_cell_def)

text \<open>
  C1, amended: when the move lands on a Floor cell that is not the exit and an advanced
  hound stands on the player's new cell, the game is lost (caught), the turn counter stays,
  and the sanity has been drained like on any other step: it is
  \<open>clamp(sanity - drain, 0, 100)\<close> with drain 1 in light above 0.4 and 3 otherwise.
\<close>

theorem caught_step:
  assumes "gameOver s = None"
    and "nx = clamp (plx (player s) + dx) 0 (int W - 1)"
    and "ny = clamp (ply (player s) + dy) 0 (int H - 1)"
    and "cell_at (smap s) nx ny = Some c"
    and "t c = FLOOR"
    and "\<not> exit c"
    and "advance_hounds (smap s) nx ny (hounds s) r = Some (nextH, r')"
    and "\<exists>h \<in> set nextH. hx h = nx \<and> hy h = ny"
  shows "\<exists>s'. step dx dy r s = Some (s', r') \<and> gameOver s' = Some Dead
           \<and> message s' = MsgCaught \<and> hounds s' = nextH
           \<and> player s' = \<lparr>plx = nx, ply = ny\<rparr> \<and> turn s' = turn s
           \<and> sanity s' = clamp (sanity s - (if light c > 4 / 10 then 1 else 3)) 0 100"
  using assms by (simp add: step_def Let_def)

theorem caught_step_witness:
  "gameOver caught_state = None
   \<and> (6::int) = clamp (plx (player caught_state) + 1) 0 (int W - 1)
   \<and> (5::int) = clamp (ply (player caught_state) + 0) 0 (int H - 1)
   \<and> cell_at (smap caught_state) 6 5 = Some floor_cell
   \<and> t floor_cell = FLOOR \<and> \<not> exit floor_cell
   \<and> advance_hounds (smap caught_state) 6 5 (hounds caught_state) rng0
        = Some ([\<lparr>hx = 6, hy = 5, cooldown = 0\<rparr>], rng0)
   \<and> (\<exists>h \<in> set [\<lparr>hx = 6, hy = 5, cooldown = 0\<rparr>]. hx h = 6 \<and> hy h = 5)
   \<and> (\<exists>s'. step 1 0 rng0 caught_state = Some (s', rng0) \<and> gameOver s' = Some Dead
           \<and> message s' = MsgCaught \<and> hounds s' = [\<lparr>hx = 6, hy = 5, cooldown = 0\<rparr>]
           \<and> player s' = \<lparr>plx = 6, ply = 5\<rparr> \<and> turn s' = turn caught_state
           \<and> sanity s' = clamp (sanity caught_state - (if light floor_cell > 4 / 10 then 1 else 3)) 0 100)"
proof -
  have a: "gameOver caught_state = None" by (simp add: caught_state_def)
  have b: "(6::int) = clamp (plx (player caught_state) + 1) 0 (int W - 1)"
    by (simp add: caught_state_def clamp_def W_def)
  have c: "(5::int) = clamp (ply (player caught_state) + 0) 0 (int H - 1)"
    by (simp add: caught_state_def clamp_def H_def)
  have d: "cell_at (smap caught_state) 6 5 = Some floor_cell"
    by (simp add: caught_state_def cell_open)
  have e: "t floor_cell = FLOOR" "\<not> exit floor_cell" by (simp_all add: floor_cell_def)
  have f: "advance_hounds (smap caught_state) 6 5 (hounds caught_state) rng0
        = Some ([\<lparr>hx = 6, hy = 5, cooldown = 0\<rparr>], rng0)"
    by (simp add: caught_state_def advance_caught del: advance_hounds.simps)
  have g: "\<exists>h \<in> set [\<lparr>hx = 6, hy = 5, cooldown = 0\<rparr>]. hx h = 6 \<and> hy h = 5" by simp
  show ?thesis
    using caught_step[OF a b c d e f g] a b c d e f g by blast
qed

text \<open>
  C2 as stated fails: from the last column a step to the right is clamped onto the
  player's own cell, which is Floor, and the turn is played: sanity 97, turn 1.
\<close>

theorem offgrid_move_counterexample:
  "gameOver edge_state = None
   \<and> \<not> inBounds (smap edge_state) (plx (player edge_state) + 1) (ply (player edge_state) + 0)
   \<and> step 1 0 rng0 edge_state \<noteq> Some (edge_state, rng0)
   \<and> turn edge_state = 0
   \<and> map_option (turn \<circ> fst) (step 1 0 rng0 edge_state) = Some 1
   \<and> sanity edge_state = 100
   \<and> map_option (sanity \<circ> fst) (step 1 0 rng0 edge_state) = Some 97"
proof -
  have "step 1 0 rng0 edge_state \<noteq> Some (edge_state, rng0)"
  proof
    assume "step 1 0 rng0 edge_state = Some (edge_state, rng0)"
    then have "map_option (turn \<circ> fst) (step 1 0 rng0 edge_state) = Some (turn edge_state)"
      by simp
    then show False unfolding step_edge_state by (simp add: edge_state_def)
  qed
  moreover have "map_option (turn \<circ> fst) (step 1 0 rng0 edge_state) = Some 1"
    unfolding step_edge_state by simp
  moreover have "map_option (sanity \<circ> fst) (step 1 0 rng0 edge_state) = Some 97"
    unfolding step_edge_state by simp
  ultimately show ?thesis by (simp add: edge_state_def inBounds_open)
qed

text \<open>
  C2, amended: a move whose raw destination lies outside the grid is resolved on the
  clamped coordinate (for a unit step of a player inside the grid, the player's own cell).
  When the clamped cell is Wall the state is unchanged and no turn is consumed; when it is
  Floor the move is played on that cell: the player stands on it and the game has ended or
  the turn counter has advanced.
\<close>

theorem offgrid_move_clamped:
  assumes "dims W H (smap s)"
    and "gameOver s = None"
    and "\<not> (0 \<le> plx (player s) + dx \<and> plx (player s) + dx < int W
             \<and> 0 \<le> ply (player s) + dy \<and> ply (player s) + dy < int H)"
    and "nx = clamp (plx (player s) + dx) 0 (int W - 1)"
    and "ny = clamp (ply (player s) + dy) 0 (int H - 1)"
  shows "\<exists>c. cell_at (smap s) nx ny = Some c
           \<and> (t c = WALL \<longrightarrow> step dx dy r s = Some (s, r))
           \<and> (t c = FLOOR \<longrightarrow>
                (\<exists>s' r'. step dx dy r s = Some (s', r') \<and> player s' = \<lparr>plx = nx, ply = ny\<rparr>
                    \<and> (gameOver s' \<noteq> None \<or> turn s' = turn s + 1)))
           \<and> ((dx, dy) \<in> set unit_dirs \<and> 0 \<le> plx (player s) \<and> plx (player s) < int W
                 \<and> 0 \<le> ply (player s) \<and> ply (player s) < int H \<longrightarrow>
                nx = plx (player s) \<and> ny = ply (player s))"
proof -
  have b: "0 \<le> nx" "nx < int W" "0 \<le> ny" "ny < int H"
    using assms(4,5) by (auto simp: clamp_def W_def H_def)
  from dims_cell_at[OF assms(1) b] obtain c where c: "cell_at (smap s) nx ny = Some c" by blast
  from advance_hounds_total[OF dims_rect[OF assms(1)], of nx ny "hounds s" r]
  obtain nextH r' where a: "advance_hounds (smap s) nx ny (hounds s) r = Some (nextH, r')"
    by blast
  have wall: "t c = WALL \<longrightarrow> step dx dy r s = Some (s, r)"
    using assms(2,4,5) c by (simp add: step_def Let_def)
  have floor: "t c = FLOOR \<longrightarrow>
                (\<exists>s' r'. step dx dy r s = Some (s', r') \<and> player s' = \<lparr>plx = nx, ply = ny\<rparr>
                    \<and> (gameOver s' \<noteq> None \<or> turn s' = turn s + 1))"
    using assms(2) assms(4)[symmetric] assms(5)[symmetric] c a by (simp add: step_def Let_def)
  have own: "(dx, dy) \<in> set unit_dirs \<and> 0 \<le> plx (player s) \<and> plx (player s) < int W
                 \<and> 0 \<le> ply (player s) \<and> ply (player s) < int H \<longrightarrow>
                nx = plx (player s) \<and> ny = ply (player s)"
    using assms(3,4,5) by (auto simp: unit_dirs_def clamp_def)
  show ?thesis using c wall floor own by blast
qed

theorem offgrid_move_clamped_witness:
  "dims W H (smap edge_state) \<and> gameOver edge_state = None
   \<and> \<not> (0 \<le> plx (player edge_state) + 1 \<and> plx (player edge_state) + 1 < int W
             \<and> 0 \<le> ply (player edge_state) + 0 \<and> ply (player edge_state) + 0 < int H)
   \<and> (45::int) = clamp (plx (player edge_state) + 1) 0 (int W - 1)
   \<and> (5::int) = clamp (ply (player edge_state) + 0) 0 (int H - 1)
   \<and> (\<exists>c. cell_at (smap edge_state) 45 5 = Some c
           \<and> (t c = WALL \<longrightarrow> step 1 0 rng0 edge_state = Some (edge_state, rng0))
           \<and> (t c = FLOOR \<longrightarrow>
                (\<exists>s' r'. step 1 0 rng0 edge_state = Some (s', r') \<and> player s' = \<lparr>plx = 45, ply = 5\<rparr>
                    \<and> (gameOver s' \<noteq> None \<or> turn s' = turn edge_state + 1)))
           \<and> ((1, 0) \<in> set unit_dirs \<and> 0 \<le> plx (player edge_state) \<and> plx (player edge_state) < int W
                 \<and> 0 \<le> ply (player edge_state) \<and> ply (player edge_state) < int H \<longrightarrow>
                45 = plx (player edge_state) \<and> 5 = ply (player edge_state)))"
proof -
  have a: "dims W H (smap edge_state)" by (simp add: edge_state_def dims_open_grid)
  have b: "gameOver edge_state = None" by (simp add: edge_state_def)
  have c: "\<not> (0 \<le> plx (player edge_state) + 1 \<and> plx (player edge_state) + 1 < int W
             \<and> 0 \<le> ply (player edge_state) + 0 \<and> ply (player edge_state) + 0 < int H)"
    by (simp add: edge_state_def W_def)
  have d: "(45::int) = clamp (plx (player edge_state) + 1) 0 (int W - 1)"
    by (simp add: edge_state_def clamp_def W_def)
  have e: "(5::int) = clamp (ply (player edge_state) + 0) 0 (int H - 1)"
    by (simp add: edge_state_def clamp_def H_def)
  show ?thesis
    using offgrid_move_clamped[OF a b c d e, of rng0] a b c d e by blast
qed

lemma step_terminal: "gameOver s \<noteq> None \<Longrightarrow> step dx dy r s = Some (s, r)"
  by (simp add: step_def)

lemma drink_terminal: "gameOver s \<noteq> None \<Longrightarrow> drink s = s"
  by (simp add: drink_def)

lemma run_terminal: "gameOver s \<noteq> None \<Longrightarrow> run acts r s = Some (s, r)"
proof (induction acts)
  case Nil
  then show ?case by simp
next
  case (Cons a acts)
  then show ?case by (cases a) (simp_all add: step_terminal drink_terminal)
qed

text \<open>
  C4: once the game is won or lost, \<open>step\<close> and \<open>drink\<close> return the state as it is, no
  draw is consumed, and so does every sequence of them.
\<close>

theorem terminal_absorbing:
  assumes "gameOver s \<noteq> None"
  shows "step dx dy r s = Some (s, r) \<and> drink s = s \<and> run acts r s = Some (s, r)"
  using assms by (simp add: step_terminal drink_terminal run_terminal)

theorem terminal_absorbing_witness:
  "gameOver lost_state \<noteq> None
   \<and> step 1 0 rng0 lost_state = Some (lost_state, rng0) \<and> drink lost_state = lost_state
   \<and> run [Move 1 0, Drink, Move 0 (-1)] rng0 lost_state = Some (lost_state, rng0)"
proof -
  have a: "gameOver lost_state \<noteq> None" by (simp add: lost_state_def)
  show ?thesis using terminal_absorbing[OF a] a by blast
qed

text \<open>
  C9: a step onto the exit moves the player there, counts one turn and wins; the hounds
  and the sanity are as before, and no draw is consumed.
\<close>

theorem winning_step:
  assumes "gameOver s = None"
    and "nx = clamp (plx (player s) + dx) 0 (int W - 1)"
    and "ny = clamp (ply (player s) + dy) 0 (int H - 1)"
    and "cell_at (smap s) nx ny = Some c"
    and "t c = FLOOR"
    and "exit c"
  shows "\<exists>s'. step dx dy r s = Some (s', r) \<and> player s' = \<lparr>plx = nx, ply = ny\<rparr>
           \<and> turn s' = turn s + 1 \<and> gameOver s' = Some Win
           \<and> hounds s' = hounds s \<and> sanity s' = sanity s"
  using assms by (simp add: step_def Let_def)

theorem winning_step_witness:
  "gameOver goal_state = None
   \<and> (6::int) = clamp (plx (player goal_state) + 1) 0 (int W - 1)
   \<and> (5::int) = clamp (ply (player goal_state) + 0) 0 (int H - 1)
   \<and> cell_at (smap goal_state) 6 5 = Some (floor_cell\<lparr>exit := True\<rparr>)
   \<and> t (floor_cell\<lparr>exit := True\<rparr>) = FLOOR \<and> exit (floor_cell\<lparr>exit := True\<rparr>)
   \<and> (\<exists>s'. step 1 0 rng0 goal_state = Some (s', rng0) \<and> player s' = \<lparr>plx = 6, ply = 5\<rparr>
           \<and> turn s' = turn goal_state + 1 \<and> gameOver s' = Some Win
           \<and> hounds s' = hounds goal_state \<and> sanity s' = sanity goal_state)"
proof -
  have a: "gameOver goal_state = None" by (simp add: goal_state_def)
  have b: "(6::int) = clamp (plx (player goal_state) + 1) 0 (int W - 1)"
    by (simp add: goal_state_def clamp_def W_def)
  have c: "(5::int) = clamp (ply (player goal_state) + 0) 0 (int H - 1)"
    by (simp add: goal_state_def clamp_def H_def)
  have e: "t (floor_cell\<lparr>exit := True\<rparr>) = FLOOR" "exit (floor_cell\<lparr>exit := True\<rparr>)"
    by (simp_all add: floor_cell_def)
  show ?thesis
    using winning_step[OF a b c cell_goal e, of rng0] a b c cell_goal e by blast
qed

section \<open>The entity placer\<close>

lemma cell_at_set_cell:
  assumes "cell_at m x y = Some c0"
  shows "cell_at (set_cell m x y c) x' y' = (if x' = x \<and> y' = y then Some c else cell_at m x' y')"
proof -
  from assms have b: "0 \<le> y" "nat y < length m" "0 \<le> x" "nat x < length (m ! nat y)"
    "y < int (length m)" "x < int (length (m ! nat y))"
    by (auto simp: cell_at_def split: if_splits)
  let ?m' = "m[nat y := (m ! nat y)[nat x := c]]"
  have len: "length ?m' = length m" by simp
  show ?thesis
  proof (cases "0 \<le> y' \<and> y' < int (length m)")
    case False
    then show ?thesis using b by (auto simp: cell_at_def set_cell_def)
  next
    case True
    then have y': "nat y' < length m" by linarith
    show ?thesis
    proof (cases "y' = y")
      case False
      then have "nat y' \<noteq> nat y" using True b(1) by linarith
      then have "?m' ! nat y' = m ! nat y'" by simp
      then show ?thesis using False by (simp add: cell_at_def set_cell_def)
    next
      case yy: True
      have row: "?m' ! nat y' = (m ! nat y)[nat x := c]" using yy b(2) by simp
      show ?thesis
      proof (cases "0 \<le> x' \<and> x' < int (length (m ! nat y))")
        case False
        then show ?thesis using b yy True row
          by (auto simp: cell_at_def set_cell_def)
      next
        case xin: True
        show ?thesis
        proof (cases "x' = x")
          case True
          then show ?thesis using b yy row by (simp add: cell_at_def set_cell_def)
        next
          case False
          then have "nat x' \<noteq> nat x" using xin b(3) by linarith
          then have "(m ! nat y)[nat x := c] ! nat x' = m ! nat y ! nat x'" by simp
          then show ?thesis using False b yy row xin True
            by (simp add: cell_at_def set_cell_def)
        qed
      qed
    qed
  qed
qed

lemma floor_list_product:
  "floor_list m = Some fl \<Longrightarrow>
     fl = map (\<lambda>(y, x). (int x, int y))
            (filter (\<lambda>(y, x). t (m ! y ! x) = FLOOR)
               (List.product [0..<length m] [0..<length (m ! 0)]))"
  by (auto simp: floor_list_def Let_def product_concat_map filter_concat map_concat comp_def
      filter_map split: if_splits intro!: arg_cong[where f = concat])

lemma floor_list_distinct: "floor_list m = Some fl \<Longrightarrow> distinct fl"
  by (drule floor_list_product)
    (auto simp: distinct_map distinct_product intro!: inj_onI distinct_filter)

lemma floor_list_cells:
  assumes "floor_list m = Some fl" "(x, y) \<in> set fl"
  shows "\<exists>c. cell_at m x y = Some c \<and> t c = FLOOR"
proof -
  from assms(1) have ne: "m \<noteq> []" and len: "\<forall>row \<in> set m. length (m ! 0) \<le> length row"
    by (auto simp: floor_list_def Let_def split: if_splits)
  from floor_list_product[OF assms(1)] assms(2)
  obtain i j where ij: "i < length m" "j < length (m ! 0)" "t (m ! i ! j) = FLOOR"
    "x = int j" "y = int i" by auto
  have "m ! i \<in> set m" using ij(1) by simp
  then have "j < length (m ! i)" using len ij(2) by fastforce
  then show ?thesis using ij by (simp add: cell_at_def)
qed

lemma pick_props:
  assumes "pick fl r = Some (c, fl', r')"
  shows "c \<in> set fl" "r' = rest r" "length fl = Suc (length fl')" "set fl' \<subseteq> set fl"
    "distinct fl \<Longrightarrow> distinct fl' \<and> c \<notin> set fl'" "set fl = insert c (set fl')"
proof -
  let ?k = "nat \<lfloor>draw r * real (length fl)\<rfloor>"
  from assms have k: "?k < length fl" and c: "c = fl ! ?k"
    and fl': "fl' = take ?k fl @ drop (Suc ?k) fl" and r': "r' = rest r"
    by (auto simp: pick_def Let_def split: if_splits)
  show "c \<in> set fl" using k c by simp
  show "r' = rest r" by (rule r')
  show "length fl = Suc (length fl')" using k fl' by simp
  show "set fl' \<subseteq> set fl" unfolding fl' by (auto dest: in_set_takeD in_set_dropD)
  assume d: "distinct fl"
  have s: "fl = take ?k fl @ fl ! ?k # drop (Suc ?k) fl" by (rule id_take_nth_drop[OF k])
  have "distinct (take ?k fl @ fl ! ?k # drop (Suc ?k) fl)" using d s by simp
  then show "distinct fl' \<and> c \<notin> set fl'" unfolding fl' c by auto
next
  let ?k = "nat \<lfloor>draw r * real (length fl)\<rfloor>"
  from assms have k: "?k < length fl" and c: "c = fl ! ?k"
    and fl': "fl' = take ?k fl @ drop (Suc ?k) fl"
    by (auto simp: pick_def Let_def split: if_splits)
  have "set fl = set (take ?k fl @ fl ! ?k # drop (Suc ?k) fl)"
    using id_take_nth_drop[OF k] by simp
  then show "set fl = insert c (set fl')" unfolding fl' c by auto
qed

lemma after_0: "after 0 r = r"
  by (simp add: after_def)

lemma after_rest: "after n (rest r) = after (Suc n) r"
  by (simp add: after_def rest_def)

lemma rest_after: "rest (after n r) = after (Suc n) r"
  by (simp add: after_def rest_def)

lemma rest_nth: "rest r i = r (Suc i)"
  by (simp add: rest_def)

lemma find_exit_spec:
  assumes "find_exit n floors px py (ex0, ey0, bd0) r = Some ((ex, ey, bd), r')"
  defines "idx \<equiv> \<lambda>i. nat \<lfloor>r i * real (length floors)\<rfloor>"
  defines "far \<equiv> \<lambda>i. manhattan px py (fst (floors ! idx i)) (snd (floors ! idx i))"
  shows "r' = after n r \<and> (\<forall>i<n. idx i < length floors) \<and>
     ((ex, ey, bd) = (ex0, ey0, bd0) \<and> (\<forall>i<n. far i \<le> bd0)
      \<or> (\<exists>g<n. (ex, ey) = floors ! idx g \<and> bd = far g \<and> bd0 < bd
            \<and> (\<forall>i<n. far i \<le> bd) \<and> (\<forall>i<g. far i < bd)))"
  using assms(1) unfolding idx_def far_def
proof (induction n arbitrary: r ex0 ey0 bd0)
  case 0
  then show ?case by (simp add: after_0)
next
  case (Suc n)
  let ?idx = "\<lambda>r i. nat \<lfloor>r i * real (length floors)\<rfloor>"
  let ?far = "\<lambda>r i. manhattan px py (fst (floors ! ?idx r i)) (snd (floors ! ?idx r i))"
  have k: "?idx r 0 < length floors"
    using Suc.prems by (auto simp: Let_def draw_def split: if_splits)
  obtain x y where xy: "floors ! ?idx r 0 = (x, y)" by (cases "floors ! ?idx r 0")
  let ?d = "manhattan px py x y"
  have d0: "?far r 0 = ?d" using xy by simp
  have sh: "\<And>i. ?idx (rest r) i = ?idx r (Suc i)" by (simp add: rest_nth)
  have shd: "\<And>i. ?far (rest r) i = ?far r (Suc i)" by (simp add: rest_nth)
  show ?case
  proof (cases "?d > bd0")
    case True
    then have rec: "find_exit n floors px py (x, y, ?d) (rest r) = Some ((ex, ey, bd), r')"
      using Suc.prems k xy by (simp add: Let_def draw_def)
    from Suc.IH[OF rec] have r': "r' = after n (rest r)"
      and ix: "\<forall>i<n. ?idx (rest r) i < length floors"
      and alt: "(ex, ey, bd) = (x, y, ?d) \<and> (\<forall>i<n. ?far (rest r) i \<le> ?d)
        \<or> (\<exists>g<n. (ex, ey) = floors ! ?idx (rest r) g \<and> bd = ?far (rest r) g \<and> ?d < bd
            \<and> (\<forall>i<n. ?far (rest r) i \<le> bd) \<and> (\<forall>i<g. ?far (rest r) i < bd))"
      by blast+
    have ix': "\<forall>i<Suc n. ?idx r i < length floors"
    proof (intro allI impI)
      fix i assume "i < Suc n"
      then show "?idx r i < length floors" using k ix sh by (cases i) auto
    qed
    from alt have "\<exists>g<Suc n. (ex, ey) = floors ! ?idx r g \<and> bd = ?far r g \<and> bd0 < bd
            \<and> (\<forall>i<Suc n. ?far r i \<le> bd) \<and> (\<forall>i<g. ?far r i < bd)"
    proof
      assume a: "(ex, ey, bd) = (x, y, ?d) \<and> (\<forall>i<n. ?far (rest r) i \<le> ?d)"
      have "\<forall>i<Suc n. ?far r i \<le> bd"
      proof (intro allI impI)
        fix i assume "i < Suc n"
        then show "?far r i \<le> bd" using a d0 shd by (cases i) auto
      qed
      then show ?thesis using a xy d0 True by (intro exI[of _ 0]) auto
    next
      assume "\<exists>g<n. (ex, ey) = floors ! ?idx (rest r) g \<and> bd = ?far (rest r) g \<and> ?d < bd
            \<and> (\<forall>i<n. ?far (rest r) i \<le> bd) \<and> (\<forall>i<g. ?far (rest r) i < bd)"
      then obtain g where g: "g < n" "(ex, ey) = floors ! ?idx (rest r) g"
        "bd = ?far (rest r) g" "?d < bd" "\<forall>i<n. ?far (rest r) i \<le> bd"
        "\<forall>i<g. ?far (rest r) i < bd" by blast
      have 1: "\<forall>i<Suc n. ?far r i \<le> bd"
      proof (intro allI impI)
        fix i assume "i < Suc n"
        then show "?far r i \<le> bd" using g(4,5) d0 shd by (cases i) auto
      qed
      have 2: "\<forall>i<Suc g. ?far r i < bd"
      proof (intro allI impI)
        fix i assume "i < Suc g"
        then show "?far r i < bd" using g(4,6) d0 shd by (cases i) auto
      qed
      show ?thesis using g(1,2,3,4) True 1 2 sh shd
        by (intro exI[of _ "Suc g"]) auto
    qed
    then show ?thesis using r' ix' by (simp add: after_rest)
  next
    case False
    then have rec: "find_exit n floors px py (ex0, ey0, bd0) (rest r) = Some ((ex, ey, bd), r')"
      using Suc.prems k xy by (simp add: Let_def draw_def)
    from Suc.IH[OF rec] have r': "r' = after n (rest r)"
      and ix: "\<forall>i<n. ?idx (rest r) i < length floors"
      and alt: "(ex, ey, bd) = (ex0, ey0, bd0) \<and> (\<forall>i<n. ?far (rest r) i \<le> bd0)
        \<or> (\<exists>g<n. (ex, ey) = floors ! ?idx (rest r) g \<and> bd = ?far (rest r) g \<and> bd0 < bd
            \<and> (\<forall>i<n. ?far (rest r) i \<le> bd) \<and> (\<forall>i<g. ?far (rest r) i < bd))"
      by blast+
    have ix': "\<forall>i<Suc n. ?idx r i < length floors"
    proof (intro allI impI)
      fix i assume "i < Suc n"
      then show "?idx r i < length floors" using k ix sh by (cases i) auto
    qed
    from alt have "(ex, ey, bd) = (ex0, ey0, bd0) \<and> (\<forall>i<Suc n. ?far r i \<le> bd0)
        \<or> (\<exists>g<Suc n. (ex, ey) = floors ! ?idx r g \<and> bd = ?far r g \<and> bd0 < bd
            \<and> (\<forall>i<Suc n. ?far r i \<le> bd) \<and> (\<forall>i<g. ?far r i < bd))"
    proof
      assume a: "(ex, ey, bd) = (ex0, ey0, bd0) \<and> (\<forall>i<n. ?far (rest r) i \<le> bd0)"
      have "\<forall>i<Suc n. ?far r i \<le> bd0"
      proof (intro allI impI)
        fix i assume "i < Suc n"
        then show "?far r i \<le> bd0" using a d0 shd False by (cases i) auto
      qed
      then show ?thesis using a by blast
    next
      assume "\<exists>g<n. (ex, ey) = floors ! ?idx (rest r) g \<and> bd = ?far (rest r) g \<and> bd0 < bd
            \<and> (\<forall>i<n. ?far (rest r) i \<le> bd) \<and> (\<forall>i<g. ?far (rest r) i < bd)"
      then obtain g where g: "g < n" "(ex, ey) = floors ! ?idx (rest r) g"
        "bd = ?far (rest r) g" "bd0 < bd" "\<forall>i<n. ?far (rest r) i \<le> bd"
        "\<forall>i<g. ?far (rest r) i < bd" by blast
      have 1: "\<forall>i<Suc n. ?far r i \<le> bd"
      proof (intro allI impI)
        fix i assume "i < Suc n"
        then show "?far r i \<le> bd" using g(4,5) d0 shd False by (cases i) auto
      qed
      have 2: "\<forall>i<Suc g. ?far r i < bd"
      proof (intro allI impI)
        fix i assume "i < Suc g"
        then show "?far r i < bd" using g(4,6) d0 shd False by (cases i) auto
      qed
      have "\<exists>g<Suc n. (ex, ey) = floors ! ?idx r g \<and> bd = ?far r g \<and> bd0 < bd
            \<and> (\<forall>i<Suc n. ?far r i \<le> bd) \<and> (\<forall>i<g. ?far r i < bd)"
        using g(1,2,3,4) 1 2 sh shd by (intro exI[of _ "Suc g"]) auto
      then show ?thesis by blast
    qed
    then show ?thesis using r' ix' by (simp add: after_rest)
  qed
qed

lemma place_items_props:
  assumes "place_items n m fl r = Some (m', fl', r')" and "distinct fl"
  shows "distinct fl' \<and> set fl' \<subseteq> set fl \<and> length fl = n + length fl' \<and> r' = after n r
     \<and> (\<forall>x y. cell_at m' x y =
           (case cell_at m x y of
              None \<Rightarrow> None
            | Some c \<Rightarrow> Some (if (x, y) \<in> set fl - set fl' \<and> \<not> exit c
                              then c\<lparr>item := Some Almond\<rparr> else c)))"
  using assms
proof (induction n arbitrary: m fl r)
  case 0
  then show ?case by (auto simp: after_0 split: option.splits)
next
  case (Suc n)
  from Suc.prems(1) obtain x y fl1 r1 c where
    p: "pick fl r = Some ((x, y), fl1, r1)" and c: "cell_at m x y = Some c"
    and rec: "place_items n (if \<not> exit c then set_cell m x y (c\<lparr>item := Some Almond\<rparr>) else m)
                fl1 r1 = Some (m', fl', r')"
    by (auto split: option.splits prod.splits)
  let ?m1 = "if \<not> exit c then set_cell m x y (c\<lparr>item := Some Almond\<rparr>) else m"
  note pp = pick_props[OF p]
  have d1: "distinct fl1" and nin: "(x, y) \<notin> set fl1" using pp(5)[OF Suc.prems(2)] by auto
  from Suc.IH[OF rec d1] have ih: "distinct fl'" "set fl' \<subseteq> set fl1"
    "length fl1 = n + length fl'" "r' = after n r1"
    "\<And>x' y'. cell_at m' x' y' =
           (case cell_at ?m1 x' y' of
              None \<Rightarrow> None
            | Some c' \<Rightarrow> Some (if (x', y') \<in> set fl1 - set fl' \<and> \<not> exit c'
                              then c'\<lparr>item := Some Almond\<rparr> else c'))"
    by blast+
  have m1: "\<And>x' y'. cell_at ?m1 x' y' =
      (if x' = x \<and> y' = y \<and> \<not> exit c then Some (c\<lparr>item := Some Almond\<rparr>) else cell_at m x' y')"
    using cell_at_set_cell[OF c] c by auto
  have cells: "\<forall>x' y'. cell_at m' x' y' =
           (case cell_at m x' y' of
              None \<Rightarrow> None
            | Some c' \<Rightarrow> Some (if (x', y') \<in> set fl - set fl' \<and> \<not> exit c'
                              then c'\<lparr>item := Some Almond\<rparr> else c'))"
  proof (intro allI)
    fix x' y'
    show "cell_at m' x' y' =
           (case cell_at m x' y' of
              None \<Rightarrow> None
            | Some c' \<Rightarrow> Some (if (x', y') \<in> set fl - set fl' \<and> \<not> exit c'
                              then c'\<lparr>item := Some Almond\<rparr> else c'))"
    proof (cases "x' = x \<and> y' = y")
      case True
      then show ?thesis using ih(5)[of x' y'] m1[of x' y'] c nin ih(2) pp(1) 
        by (auto split: option.splits)
    next
      case False
      then have "(x', y') \<in> set fl - set fl' \<longleftrightarrow> (x', y') \<in> set fl1 - set fl'"
        using pp(6) by auto
      then show ?thesis using ih(5)[of x' y'] m1[of x' y'] False
        by (auto split: option.splits)
    qed
  qed
  show ?case using ih(1-4) pp(2,3,4) cells by (auto simp: after_rest)
qed


lemma shuffle_maze_rng0: "shuffle rng0 maze_dirs = ([(-2, 0), (0, 2), (0, -2), (2, 0)], rng0)"
  by (simp add: shuffle_def maze_dirs_def numeral_3_eq_3 draw_rng0 rest_rng0 Let_def)

lemma maze5: "map_option fst (maze_loop (carve (makeEmptyMap 5 5) 3 3) [(3, 3)] rng0) = Some g5"
  by code_simp

lemma empty5: "makeEmptyMap 5 5 =
    [[empty_cell, empty_cell, empty_cell, empty_cell, empty_cell],
     [empty_cell, empty_cell, empty_cell, empty_cell, empty_cell],
     [empty_cell, empty_cell, empty_cell, empty_cell, empty_cell],
     [empty_cell, empty_cell, empty_cell, empty_cell, empty_cell],
     [empty_cell, empty_cell, empty_cell, empty_cell, empty_cell]]"
  by (simp add: makeEmptyMap_def eval_nat_numeral)

lemma maze5': "maze_loop (carve (makeEmptyMap 5 5) 3 3) [(3, 3)] rng0 = Some (g5, rng0)"
  unfolding empty5
  by (simp add: shuffle_maze_rng0 carve_def cell_at_def set_cell_def inBounds_def
      empty_cell_def floor_cell_def g5_def Let_def eval_nat_numeral)

lemma gen5: "generateLayout 5 5 rng0 = Some (g5, rng0)"
  by (simp add: generateLayout_def maze5' or_one_eq Let_def del: maze_loop.simps)

lemma find_exit_same:
  assumes "\<forall>i<n. nat \<lfloor>r i * real (length floors)\<rfloor> = k" "k < length floors"
    "floors ! k = (x, y)"
  shows "find_exit n floors px py (ex, ey, bd) r =
     Some (if 0 < n \<and> bd < manhattan px py x y then (x, y, manhattan px py x y)
           else (ex, ey, bd), after n r)"
  using assms(1)
proof (induction n arbitrary: r ex ey bd)
  case 0
  then show ?case by (simp add: after_0)
next
  case (Suc n)
  have k0: "nat \<lfloor>draw r * real (length floors)\<rfloor> = k" using Suc.prems by (simp add: draw_def)
  have "\<forall>i<n. nat \<lfloor>rest r i * real (length floors)\<rfloor> = k"
    using Suc.prems by (simp add: rest_nth)
  note ih = Suc.IH[OF this]
  show ?case using k0 assms(2,3) by (simp add: ih after_rest)
qed

lemma floors_g5: "floor_list g5 = Some [(1, 1), (2, 1), (3, 1), (1, 2), (1, 3), (2, 3), (3, 3)]"
  by (simp add: floor_list_def g5_def upt_rec floor_cell_def empty_cell_def)

lemma rest_rng_goal: "rest rng_goal = rng_half"
  by (simp add: rest_def rng_goal_def rng_half_def)

lemma after_rng_half: "after n rng_half = rng_half"
  by (simp add: after_def rng_half_def)

lemma rest_rng_half: "rest rng_half = rng_half"
  by (simp add: rest_def rng_half_def)

lemma draw_rng_half: "draw rng_half = 1 / 2"
  by (simp add: draw_def rng_half_def)

lemma exit_g5_goal:
  "find_exit 200 [(2, 1), (3, 1), (1, 2), (1, 3), (2, 3), (3, 3)] 1 1 (1, 1, -1) rng_half
     = Some ((1, 3, 2), rng_half)"
  by (subst find_exit_same[where k = 3 and x = 1 and y = 3])
    (simp_all add: rng_half_def manhattan_def after_def)

lemma exit_g5_spec:
  "find_exit 200 [(1, 1), (2, 1), (3, 1), (1, 2), (1, 3), (2, 3), (3, 3)] 1 1 (1, 1, -1) rng_half
     = Some ((1, 2, 1), rng_half)"
  by (subst find_exit_same[where k = 3 and x = 1 and y = 2])
    (simp_all add: rng_half_def manhattan_def after_def)

lemma pick_g5_goal:
  "pick [(1, 1), (2, 1), (3, 1), (1, 2), (1, 3), (2, 3), (3, 3)] rng_goal
     = Some ((1, 1), [(2, 1), (3, 1), (1, 2), (1, 3), (2, 3), (3, 3)], rng_half)"
  by (simp add: pick_def draw_def rng_goal_def rest_rng_goal[unfolded rng_goal_def])

lemma spec_g5: "goal_by_spec g5 rng_goal = Some (1, 2)"
  by (simp add: goal_by_spec_def floors_g5 pick_g5_goal exit_g5_spec del: find_exit.simps)

lemma mark_g5: "cell_at g5 1 3 = Some floor_cell"
  "set_cell g5 1 3 (floor_cell\<lparr>exit := True\<rparr>) = g5_exit"
  by (simp_all add: cell_at_def set_cell_def g5_def g5_exit_def floor_cell_def exit_cell_def
      eval_nat_numeral)

lemma items_g5:
  "place_items 5 g5_exit [(2, 1), (3, 1), (1, 2), (1, 3), (2, 3), (3, 3)] rng_half
     = Some (g5_goal, [(2, 1)], rng_half)"
  by (simp add: eval_nat_numeral pick_def draw_rng_half rest_rng_half cell_at_def set_cell_def
      g5_exit_def g5_goal_def floor_cell_def empty_cell_def item_cell_def exit_cell_def)

lemma hounds_g5:
  "place_hounds (Suc 0) [(2, 1)] rng_half = Some ([\<lparr>hx = 2, hy = 1, cooldown = 1\<rparr>], rng_half)"
  by (simp add: pick_def draw_rng_half rest_rng_half randInt_def)

lemma place_g5_goal:
  "placeThings g5 rng_goal = Some (g5_goal, 1, 1, [\<lparr>hx = 2, hy = 1, cooldown = 1\<rparr>], rng_half)"
  by (simp add: placeThings_def floors_g5 pick_g5_goal exit_g5_goal mark_g5 items_g5 hounds_g5
      del: find_exit.simps place_items.simps place_hounds.simps)

lemma exits_g5_goal: "exit_cells g5_goal = [(1, 3)]"
  by (simp add: exit_cells_def g5_goal_def upt_rec floor_cell_def empty_cell_def
      item_cell_def exit_cell_def)

lemma cells_product:
  "concat (map (\<lambda>y. map (\<lambda>x. (int x, int y)) (filter (\<lambda>x. P (m ! y ! x)) [0..<w])) [0..<h])
     = map (\<lambda>(y, x). (int x, int y))
            (filter (\<lambda>(y, x). P (m ! y ! x)) (List.product [0..<h] [0..<w]))"
  by (auto simp: product_concat_map filter_concat map_concat comp_def filter_map
      intro!: arg_cong[where f = concat])

lemma cells_distinct:
  "distinct (concat (map (\<lambda>y. map (\<lambda>x. (int x, int y)) (filter (\<lambda>x. P (m ! y ! x)) [0..<w]))
                      [0..<h]))"
  unfolding cells_product
  by (auto simp: distinct_map distinct_product intro!: inj_onI distinct_filter)

lemma cells_member:
  "(x, y) \<in> set (concat (map (\<lambda>y. map (\<lambda>x. (int x, int y)) (filter (\<lambda>x. P (m ! y ! x)) [0..<w]))
                      [0..<h]))
     \<longleftrightarrow> 0 \<le> y \<and> nat y < h \<and> 0 \<le> x \<and> nat x < w \<and> P (m ! nat y ! nat x)"
proof -
  have "0 \<le> y \<and> nat y < h \<and> 0 \<le> x \<and> nat x < w \<and> P (m ! nat y ! nat x)
     \<Longrightarrow> \<exists>a<h. \<exists>b<w. P (m ! a ! b) \<and> x = int b \<and> y = int a"
    by (rule exI[of _ "nat y"], simp, rule exI[of _ "nat x"], simp)
  then show ?thesis unfolding cells_product by (auto simp: image_iff)
qed

lemma rect_row: "rect m \<Longrightarrow> i < length m \<Longrightarrow> length (m ! i) = length (m ! 0)"
  by (simp add: rect_def)

lemma exit_cells_iff:
  assumes "rect m"
  shows "(x, y) \<in> set (exit_cells m) \<longleftrightarrow> (\<exists>c. cell_at m x y = Some c \<and> exit c)"
  unfolding exit_cells_def cells_member
  using rect_row[OF assms, of "nat y"] by (auto simp: cell_at_def)



lemma rect_set_cell: 
  assumes "rect m" 
  shows "rect (set_cell m x y c)"
proof -
  have "dims (length (m ! 0)) (length m) m" using assms by (simp add: dims_def rect_def)
  then show ?thesis by (rule dims_rect[OF dims_set_cell])
qed

lemma place_items_dims:
  "place_items n m fl r = Some (m', fl', r') \<Longrightarrow> dims w h m \<Longrightarrow> dims w h m'"
proof (induction n arbitrary: m fl r)
  case 0
  then show ?case by simp
next
  case (Suc n)
  from Suc.prems(1) obtain x y fl1 r1 c where
    rec: "place_items n (if \<not> exit c then set_cell m x y (c\<lparr>item := Some Almond\<rparr>) else m)
                fl1 r1 = Some (m', fl', r')"
    by (auto split: option.splits prod.splits)
  show ?case by (rule Suc.IH[OF rec]) (simp add: dims_set_cell Suc.prems(2))
qed

lemma rect_dims: "rect m \<Longrightarrow> dims (length (m ! 0)) (length m) m"
  by (simp add: dims_def rect_def)

lemma no_exit_cells:
  "rect m \<Longrightarrow> exit_cells m = [] \<Longrightarrow> cell_at m x y = Some c \<Longrightarrow> \<not> exit c"
  using exit_cells_iff[of m x y] by auto


text \<open>What \<open>placeThings\<close> has done when it returns.\<close>

lemma placeThings_parts:
  assumes "placeThings m r = Some (m', px, py, hs, r')"
  obtains floors0 pool ex ey bd r2 ce pool2 r3 where
    "floor_list m = Some floors0"
    "pick floors0 r = Some ((px, py), pool, rest r)"
    "find_exit 200 pool px py (px, py, -1) (rest r) = Some ((ex, ey, bd), r2)"
    "cell_at m ex ey = Some ce"
    "place_items (max 5 (length pool div 120)) (set_cell m ex ey (ce\<lparr>exit := True\<rparr>)) pool r2
       = Some (m', pool2, r3)"
    "place_hounds (max 1 (length pool2 div 800)) pool2 r3 = Some (hs, r')"
proof -
  from assms obtain floors0 where f: "floor_list m = Some floors0"
    by (auto simp: placeThings_def split: option.splits)
  from assms f obtain pool r1 where p: "pick floors0 r = Some ((px, py), pool, r1)"
    by (auto simp: placeThings_def split: option.splits prod.splits)
  have r1: "r1 = rest r" using pick_props(2)[OF p] .
  from assms f p obtain ex ey bd r2 where
    e: "find_exit 200 pool px py (px, py, -1) r1 = Some ((ex, ey, bd), r2)"
    by (auto simp: placeThings_def split: option.splits prod.splits simp del: find_exit.simps)
  from assms f p e obtain ce where c: "cell_at m ex ey = Some ce"
    by (auto simp: placeThings_def split: option.splits prod.splits simp del: find_exit.simps)
  from assms f p e c obtain pool2 r3 where
    i: "place_items (max 5 (length pool div 120)) (set_cell m ex ey (ce\<lparr>exit := True\<rparr>)) pool r2
       = Some (m', pool2, r3)"
    and h: "place_hounds (max 1 (length pool2 div 800)) pool2 r3 = Some (hs, r')"
    by (auto simp: placeThings_def split: option.splits prod.splits
        simp del: find_exit.simps place_items.simps place_hounds.simps)
  show ?thesis using that f p e c i h unfolding r1 by blast
qed

text \<open>
  C6 as stated fails: on the maze generated for a 5 by 5 map, with the spawn draw 0 and
  all later draws one half, the cell marked as exit is (1,3), a cell of the pool without
  the spawn, where the same search over the full floor list ends on (1,2).
\<close>

theorem goal_pool_counterexample:
  "generateLayout 5 5 rng0 = Some (g5, rng0)
   \<and> map_option (exit_cells \<circ> fst) (placeThings g5 rng_goal) = Some [(1, 3)]
   \<and> goal_by_spec g5 rng_goal = Some (1, 2)"
  by (simp add: gen5 place_g5_goal exits_g5_goal spec_g5)

text \<open>
  C6, amended: the 200 draws index the floor list after the spawn has been taken out of
  it, so the spawn is never a candidate. The exit is the first drawn candidate of greatest
  Manhattan distance from the spawn (a later one replaces it only when strictly farther),
  and in a map without exit marks exactly that cell is marked.
\<close>

theorem goal_selection:
  assumes "placeThings m r = Some (m', px, py, hs, r')"
    and "rect m" and "exit_cells m = []"
  shows "\<exists>floors0 pool g gx gy.
      floor_list m = Some floors0 \<and> pick floors0 r = Some ((px, py), pool, rest r)
    \<and> (px, py) \<notin> set pool \<and> set pool \<subseteq> set floors0
    \<and> g < 200
    \<and> (\<forall>i<200. nat \<lfloor>r (Suc i) * real (length pool)\<rfloor> < length pool)
    \<and> (gx, gy) = pool ! nat \<lfloor>r (Suc g) * real (length pool)\<rfloor>
    \<and> (\<forall>i<200. manhattan px py (fst (pool ! nat \<lfloor>r (Suc i) * real (length pool)\<rfloor>))
                                 (snd (pool ! nat \<lfloor>r (Suc i) * real (length pool)\<rfloor>))
                  \<le> manhattan px py gx gy)
    \<and> (\<forall>i<g. manhattan px py (fst (pool ! nat \<lfloor>r (Suc i) * real (length pool)\<rfloor>))
                               (snd (pool ! nat \<lfloor>r (Suc i) * real (length pool)\<rfloor>))
                < manhattan px py gx gy)
    \<and> exit_cells m' = [(gx, gy)]"
proof -
  from placeThings_parts[OF assms(1)] obtain floors0 pool ex ey bd r2 ce pool2 r3 where
    f: "floor_list m = Some floors0"
    and p: "pick floors0 r = Some ((px, py), pool, rest r)"
    and e: "find_exit 200 pool px py (px, py, -1) (rest r) = Some ((ex, ey, bd), r2)"
    and c: "cell_at m ex ey = Some ce"
    and i: "place_items (max 5 (length pool div 120)) (set_cell m ex ey (ce\<lparr>exit := True\<rparr>))
              pool r2 = Some (m', pool2, r3)"
    by metis
  let ?idx = "\<lambda>i. nat \<lfloor>r (Suc i) * real (length pool)\<rfloor>"
  let ?far = "\<lambda>i. manhattan px py (fst (pool ! ?idx i)) (snd (pool ! ?idx i))"
  note pp = pick_props[OF p]
  have d0: "distinct floors0" by (rule floor_list_distinct[OF f])
  have dp: "distinct pool" "(px, py) \<notin> set pool" using pp(5)[OF d0] by auto
  from find_exit_spec[OF e] have ix: "\<forall>i<200. ?idx i < length pool"
    and alt: "(ex, ey, bd) = (px, py, -1) \<and> (\<forall>i<200. ?far i \<le> -1)
      \<or> (\<exists>g<200. (ex, ey) = pool ! ?idx g \<and> bd = ?far g \<and> -1 < bd
            \<and> (\<forall>i<200. ?far i \<le> bd) \<and> (\<forall>i<g. ?far i < bd))"
    by (simp_all add: rest_nth)
  have "0 \<le> ?far 0" by (simp add: manhattan_def)
  then have "\<not> (\<forall>i<200. ?far i \<le> -1)" by (intro notI) (drule spec[of _ 0], simp)
  with alt obtain g where g: "g < 200" "(ex, ey) = pool ! ?idx g" "bd = ?far g"
    "\<forall>i<200. ?far i \<le> bd" "\<forall>i<g. ?far i < bd" by blast
  have bd: "bd = manhattan px py ex ey" using g(2,3) by (metis fst_conv snd_conv)
  text \<open>The exit marks of the result.\<close>
  let ?m1 = "set_cell m ex ey (ce\<lparr>exit := True\<rparr>)"
  have r1: "rect ?m1" by (rule rect_set_cell[OF assms(2)])
  have r': "rect m'" by (rule dims_rect[OF place_items_dims[OF i rect_dims[OF r1]]])
  from place_items_props[OF i dp(1)] have cells: "\<And>x y. cell_at m' x y =
           (case cell_at ?m1 x y of
              None \<Rightarrow> None
            | Some c \<Rightarrow> Some (if (x, y) \<in> set pool - set pool2 \<and> \<not> exit c
                              then c\<lparr>item := Some Almond\<rparr> else c))"
    by blast
  have ex_iff: "\<And>x y. (x, y) \<in> set (exit_cells m') \<longleftrightarrow> (x, y) = (ex, ey)"
  proof -
    fix x y
    show "(x, y) \<in> set (exit_cells m') \<longleftrightarrow> (x, y) = (ex, ey)"
      using cells[of x y] cell_at_set_cell[OF c, of "ce\<lparr>exit := True\<rparr>" x y]
        no_exit_cells[OF assms(2,3), of x y]
      unfolding exit_cells_iff[OF r']
      by (auto split: option.splits if_splits)
  qed
  have dx: "distinct (exit_cells m')"
    unfolding exit_cells_def by (rule cells_distinct[where P = exit])
  have "set (exit_cells m') = {(ex, ey)}" using ex_iff by auto
  then have xs: "exit_cells m' = [(ex, ey)]"
    using dx by (metis distinct.simps(2) empty_iff empty_set insert_iff list.exhaust
        list.set_intros(1) list.simps(15) singletonD)
  show ?thesis
    using f p dp(2) pp(4) g(1,2,4,5) ix xs unfolding bd
    by (intro exI[of _ floors0] exI[of _ pool] exI[of _ g] exI[of _ ex] exI[of _ ey]) simp
qed

lemma rect_g5: "rect g5"
  by (simp add: rect_def g5_def)

lemma no_exit_g5: "exit_cells g5 = []"
  by (simp add: exit_cells_def g5_def upt_rec floor_cell_def empty_cell_def)


theorem goal_selection_witness:
  "placeThings g5 rng_goal = Some (g5_goal, 1, 1, [\<lparr>hx = 2, hy = 1, cooldown = 1\<rparr>], rng_half)
   \<and> rect g5 \<and> exit_cells g5 = []
   \<and> (\<exists>floors0 pool g gx gy.
      floor_list g5 = Some floors0 \<and> pick floors0 rng_goal = Some ((1, 1), pool, rest rng_goal)
    \<and> (1, 1) \<notin> set pool \<and> set pool \<subseteq> set floors0
    \<and> g < 200
    \<and> (\<forall>i<200. nat \<lfloor>rng_goal (Suc i) * real (length pool)\<rfloor> < length pool)
    \<and> (gx, gy) = pool ! nat \<lfloor>rng_goal (Suc g) * real (length pool)\<rfloor>
    \<and> (\<forall>i<200. manhattan 1 1 (fst (pool ! nat \<lfloor>rng_goal (Suc i) * real (length pool)\<rfloor>))
                                 (snd (pool ! nat \<lfloor>rng_goal (Suc i) * real (length pool)\<rfloor>))
                  \<le> manhattan 1 1 gx gy)
    \<and> (\<forall>i<g. manhattan 1 1 (fst (pool ! nat \<lfloor>rng_goal (Suc i) * real (length pool)\<rfloor>))
                               (snd (pool ! nat \<lfloor>rng_goal (Suc i) * real (length pool)\<rfloor>))
                < manhattan 1 1 gx gy)
    \<and> exit_cells g5_goal = [(gx, gy)])"
  using goal_selection[OF place_g5_goal rect_g5 no_exit_g5] place_g5_goal rect_g5 no_exit_g5
  by blast









lemma items_of_g5_late: "item_cells g5_late = [(2, 1), (3, 1), (1, 2), (1, 3), (2, 3)]"
  by (simp add: item_cells_def g5_late_def upt_rec floor_cell_def empty_cell_def
      item_cell_def exit_cell_def)



section \<open>The maze generator\<close>

declare maze_loop.simps [simp del]

lemma cell_at_carve:
  "cell_at (carve m x y) x' y' =
     (case cell_at m x' y' of
        None \<Rightarrow> None
      | Some c \<Rightarrow> Some (if x' = x \<and> y' = y then c\<lparr>t := FLOOR\<rparr> else c))"
proof (cases "cell_at m x y")
  case None
  then show ?thesis by (auto simp: carve_def split: option.splits)
next
  case (Some c0)
  then show ?thesis using cell_at_set_cell[OF Some, of "c0\<lparr>t := FLOOR\<rparr>" x' y']
    by (auto simp: carve_def split: option.splits)
qed

lemma dims_carve: "dims w h m \<Longrightarrow> dims w h (carve m x y)"
  by (simp add: carve_def dims_set_cell split: option.splits)

text \<open>
  A property of maps that \<open>carve\<close> keeps is kept by the backtracker, the rooms and
  whatever is built from \<open>carve\<close> alone.
\<close>

lemma try_dirs_keeps:
  assumes "\<And>m x y. P m \<Longrightarrow> P (carve m x y)"
  shows "P m \<Longrightarrow> try_dirs m cx cy ds = Carved m' nx ny \<Longrightarrow> P m'"
proof (induction ds)
  case Nil
  then show ?case by simp
next
  case (Cons d ds)
  obtain dx dy where d: "d = (dx, dy)" by (cases d)
  show ?case using Cons d assms
    by (auto simp: Let_def split: if_splits option.splits)
qed

lemma maze_loop_keeps:
  assumes "\<And>m x y. P m \<Longrightarrow> P (carve m x y)"
  shows "P m \<Longrightarrow> maze_loop m stack r = Some (m', r') \<Longrightarrow> P m'"
proof (induction m stack r rule: maze_loop.induct)
  case (1 m r)
  then show ?case by (simp add: maze_loop.simps)
next
  case (2 m cx cy stack r)
  obtain order r1 where sh: "shuffle r maze_dirs = (order, r1)" by (cases "shuffle r maze_dirs")
  show ?case
  proof (cases "try_dirs m cx cy order")
    case Thrown
    then show ?thesis using "2.prems"(2) sh by (simp add: maze_loop.simps)
  next
    case Blocked
    then show ?thesis using "2.IH"(1)[OF sh[symmetric] Blocked] "2.prems" sh
      by (simp add: maze_loop.simps)
  next
    case (Carved m1 nx ny)
    have "P m1" by (rule try_dirs_keeps[OF assms "2.prems"(1) Carved])
    then show ?thesis using "2.IH"(2)[OF sh[symmetric] Carved] "2.prems"(2) sh Carved
      by (simp add: maze_loop.simps)
  qed
qed

lemma carve_rect_keeps:
  assumes "\<And>m x y. P m \<Longrightarrow> P (carve m x y)"
  shows "P m \<Longrightarrow> P (carve_rect m rx ry rw rh)"
proof -
  have row: "\<And>m y xs. P m \<Longrightarrow> P (foldl (\<lambda>m'' x. carve m'' x y) m xs)"
  proof -
    fix m y xs show "P m \<Longrightarrow> P (foldl (\<lambda>m'' x. carve m'' x y) m xs)"
      by (induction xs arbitrary: m) (auto intro: assms)
  qed
  have "\<And>m ys. P m \<Longrightarrow>
      P (foldl (\<lambda>m' y. foldl (\<lambda>m'' x. carve m'' x y) m' [rx..rx + rw - 1]) m ys)"
  proof -
    fix m ys
    show "P m \<Longrightarrow> P (foldl (\<lambda>m' y. foldl (\<lambda>m'' x. carve m'' x y) m' [rx..rx + rw - 1]) m ys)"
      by (induction ys arbitrary: m) (auto intro: row)
  qed
  then show "P m \<Longrightarrow> P (carve_rect m rx ry rw rh)" by (simp add: carve_rect_def)
qed

lemma punch_rooms_keeps:
  assumes "\<And>m x y. P m \<Longrightarrow> P (carve m x y)"
  shows "P m \<Longrightarrow> punch_rooms n w h m r = (m', r') \<Longrightarrow> P m'"
proof (induction n arbitrary: m r)
  case 0
  then show ?case by simp
next
  case (Suc n)
  let ?m1 = "carve_rect m (randInt (rest (rest r)) 1 (w - randInt r 5 9 - 2))
         (randInt (rest (rest (rest r))) 1 (h - randInt (rest r) 4 7 - 2))
         (randInt r 5 9) (randInt (rest r) 4 7)"
  have "P ?m1" by (rule carve_rect_keeps[of P, OF assms Suc.prems(1)])
  moreover have "punch_rooms n w h ?m1 (rest (rest (rest (rest r)))) = (m', r')"
    using Suc.prems(2) by (simp add: Let_def)
  ultimately show ?case by (rule Suc.IH)
qed

lemma dark_carve: "dark m \<Longrightarrow> dark (carve m x y)"
  by (auto simp: dark_def cell_at_carve split: option.splits if_splits)

lemma dims_makeEmptyMap: "dims w h (makeEmptyMap w h)"
  by (simp add: dims_def makeEmptyMap_def)

lemma dark_makeEmptyMap: "dark (makeEmptyMap w h)"
  by (auto simp: dark_def makeEmptyMap_def cell_at_def empty_cell_def split: if_splits)

section \<open>The lighting pass\<close>

lemma rect_inBounds: "rect m \<Longrightarrow> inBounds m x y \<longleftrightarrow> cell_at m x y \<noteq> None"
  using rect_row[of m "nat y"] by (auto simp: inBounds_def cell_at_def)

lemma light_offsets_iff: "(dx, dy) \<in> set light_offsets \<longleftrightarrow> -2 \<le> dx \<and> dx \<le> 2 \<and> -2 \<le> dy \<and> dy \<le> 2"
proof -
  have "set light_offsets = {-2..2} \<times> {-2..2}"
    by (auto simp: light_offsets_def simp del: upto_rec_numeral)
  then show ?thesis by auto
qed

lemma glow_value_nonneg: "0 \<le> glow_value dx dy"
  by (simp add: glow_value_def clamp_def)

lemma glow_value_origin: "glow_value 0 0 = 1"
  by (simp add: glow_value_def clamp_def)

lemma square_ge_9:
  fixes a :: int
  assumes "3 \<le> \<bar>a\<bar>"
  shows "9 \<le> a * a"
proof -
  have "3 * 3 \<le> \<bar>a\<bar> * \<bar>a\<bar>" by (rule mult_mono) (use assms in auto)
  then show ?thesis by (simp add: abs_mult_self_eq)
qed

lemma glow_value_far:
  assumes "(dx, dy) \<notin> set light_offsets"
  shows "glow_value dx dy = 0"
proof -
  from assms have "3 \<le> \<bar>dx\<bar> \<or> 3 \<le> \<bar>dy\<bar>" by (auto simp: light_offsets_iff)
  then have "9 \<le> dx * dx + dy * dy"
  proof
    assume "3 \<le> \<bar>dx\<bar>"
    then have "9 \<le> dx * dx" by (rule square_ge_9)
    moreover have "0 \<le> dy * dy" by simp
    ultimately show ?thesis by linarith
  next
    assume "3 \<le> \<bar>dy\<bar>"
    then have "9 \<le> dy * dy" by (rule square_ge_9)
    moreover have "0 \<le> dx * dx" by simp
    ultimately show ?thesis by linarith
  qed
  then have "(9::real) \<le> of_int (dx * dx + dy * dy)" by linarith
  then have "sqrt 9 \<le> sqrt (of_int (dx * dx + dy * dy))" by (simp only: real_sqrt_le_iff)
  moreover have "sqrt 9 = 3" by (rule real_sqrt_unique) simp_all
  ultimately have "3 \<le> sqrt (of_int (dx * dx + dy * dy))" by simp
  then show ?thesis by (simp add: glow_value_def clamp_def)
qed

lemma glow_cells:
  assumes "rect m"
  shows "\<exists>m'. glow m lx ly offs = Some m' \<and> rect m' \<and>
     (\<forall>x y. cell_at m' x y =
        (case cell_at m x y of
           None \<Rightarrow> None
         | Some c \<Rightarrow> Some (if t c = FLOOR \<and> (x - lx, y - ly) \<in> set offs
                           then c\<lparr>light := max (light c) (glow_value (x - lx) (y - ly))\<rparr>
                           else c)))"
  using assms
proof (induction offs arbitrary: m)
  case Nil
  then show ?case by (auto split: option.splits)
next
  case (Cons d offs)
  obtain ox oy where o: "d = (ox, oy)" by (cases d)
  let ?nx = "lx + ox" and ?ny = "ly + oy"
  show ?case
  proof (cases "cell_at m ?nx ?ny")
    case None
    then have nb: "\<not> inBounds m ?nx ?ny" using rect_inBounds[OF Cons.prems] by simp
    from Cons.IH[OF Cons.prems] obtain m' where m': "glow m lx ly offs = Some m'" "rect m'"
      "\<forall>x y. cell_at m' x y =
        (case cell_at m x y of
           None \<Rightarrow> None
         | Some c \<Rightarrow> Some (if t c = FLOOR \<and> (x - lx, y - ly) \<in> set offs
                           then c\<lparr>light := max (light c) (glow_value (x - lx) (y - ly))\<rparr>
                           else c))" by blast
    have "glow m lx ly (d # offs) = Some m'" using nb m'(1) o by (simp add: Let_def)
    moreover have "\<forall>x y. cell_at m' x y =
        (case cell_at m x y of
           None \<Rightarrow> None
         | Some c \<Rightarrow> Some (if t c = FLOOR \<and> (x - lx, y - ly) \<in> set (d # offs)
                           then c\<lparr>light := max (light c) (glow_value (x - lx) (y - ly))\<rparr>
                           else c))"
    proof (intro allI)
      fix x y
      have "x - lx = ox \<and> y - ly = oy \<Longrightarrow> cell_at m x y = None"
        using None by (auto simp: algebra_simps)
      then show "cell_at m' x y =
        (case cell_at m x y of
           None \<Rightarrow> None
         | Some c \<Rightarrow> Some (if t c = FLOOR \<and> (x - lx, y - ly) \<in> set (d # offs)
                           then c\<lparr>light := max (light c) (glow_value (x - lx) (y - ly))\<rparr>
                           else c))"
        using m'(3) o by (auto split: option.splits)
    qed
    ultimately show ?thesis using m'(2) by blast
  next
    case (Some c0)
    then have ib: "inBounds m ?nx ?ny" using rect_inBounds[OF Cons.prems] by simp
    show ?thesis
    proof (cases "t c0 = FLOOR")
      case False
      from Cons.IH[OF Cons.prems] obtain m' where m': "glow m lx ly offs = Some m'" "rect m'"
        "\<forall>x y. cell_at m' x y =
          (case cell_at m x y of
             None \<Rightarrow> None
           | Some c \<Rightarrow> Some (if t c = FLOOR \<and> (x - lx, y - ly) \<in> set offs
                             then c\<lparr>light := max (light c) (glow_value (x - lx) (y - ly))\<rparr>
                             else c))" by blast
      have "glow m lx ly (d # offs) = Some m'" using ib Some False m'(1) o by (simp add: Let_def)
      moreover have "\<forall>x y. cell_at m' x y =
          (case cell_at m x y of
             None \<Rightarrow> None
           | Some c \<Rightarrow> Some (if t c = FLOOR \<and> (x - lx, y - ly) \<in> set (d # offs)
                             then c\<lparr>light := max (light c) (glow_value (x - lx) (y - ly))\<rparr>
                             else c))"
      proof (intro allI)
        fix x y
        have "x - lx = ox \<and> y - ly = oy \<Longrightarrow> cell_at m x y = Some c0"
          using Some by (auto simp: algebra_simps)
        then show "cell_at m' x y =
          (case cell_at m x y of
             None \<Rightarrow> None
           | Some c \<Rightarrow> Some (if t c = FLOOR \<and> (x - lx, y - ly) \<in> set (d # offs)
                             then c\<lparr>light := max (light c) (glow_value (x - lx) (y - ly))\<rparr>
                             else c))"
          using m'(3) o False by (auto split: option.splits)
      qed
      ultimately show ?thesis using m'(2) by blast
    next
      case True
      let ?c1 = "c0\<lparr>light := max (light c0) (glow_value ox oy)\<rparr>"
      let ?m1 = "set_cell m ?nx ?ny ?c1"
      have r1: "rect ?m1" by (rule rect_set_cell[OF Cons.prems])
      from Cons.IH[OF r1] obtain m' where m': "glow ?m1 lx ly offs = Some m'" "rect m'"
        "\<forall>x y. cell_at m' x y =
          (case cell_at ?m1 x y of
             None \<Rightarrow> None
           | Some c \<Rightarrow> Some (if t c = FLOOR \<and> (x - lx, y - ly) \<in> set offs
                             then c\<lparr>light := max (light c) (glow_value (x - lx) (y - ly))\<rparr>
                             else c))" by blast
      have "glow m lx ly (d # offs) = Some m'" using ib Some True m'(1) o by (simp add: Let_def)
      moreover have "\<forall>x y. cell_at m' x y =
          (case cell_at m x y of
             None \<Rightarrow> None
           | Some c \<Rightarrow> Some (if t c = FLOOR \<and> (x - lx, y - ly) \<in> set (d # offs)
                             then c\<lparr>light := max (light c) (glow_value (x - lx) (y - ly))\<rparr>
                             else c))"
      proof (intro allI)
        fix x y
        show "cell_at m' x y =
          (case cell_at m x y of
             None \<Rightarrow> None
           | Some c \<Rightarrow> Some (if t c = FLOOR \<and> (x - lx, y - ly) \<in> set (d # offs)
                             then c\<lparr>light := max (light c) (glow_value (x - lx) (y - ly))\<rparr>
                             else c))"
        proof (cases "x = ?nx \<and> y = ?ny")
          case here: True
          then have "cell_at ?m1 x y = Some ?c1" "cell_at m x y = Some c0"
            "x - lx = ox" "y - ly = oy"
            using cell_at_set_cell[OF Some, of ?c1 x y] Some by auto
          then show ?thesis using m'(3) o True by (auto split: option.splits)
        next
          case False
          then have "cell_at ?m1 x y = cell_at m x y" "(x - lx, y - ly) \<noteq> d"
            using cell_at_set_cell[OF Some, of ?c1 x y] o by auto
          then show ?thesis using m'(3) by (auto split: option.splits)
        qed
      qed
      ultimately show ?thesis using m'(2) by blast
    qed
  qed
qed

lemma light_sources_tiles:
  "(\<And>x y. map_option t (cell_at m1 x y) = map_option t (cell_at m x y)) \<Longrightarrow>
     light_sources n w h m1 r = light_sources n w h m r"
  by (induction n arbitrary: r) (simp_all add: Let_def)

lemma brightest_Cons:
  "brightest ((lx, ly) # srcs) x y l0 = brightest srcs x y (max l0 (glow_value (x - lx) (y - ly)))"
  by (simp add: brightest_def)

lemma brightest_Nil: "brightest [] x y l0 = l0"
  by (simp add: brightest_def)

lemma brightest_ge: "l0 \<le> brightest srcs x y l0"
proof (induction srcs arbitrary: l0)
  case Nil
  then show ?case by (simp add: brightest_Nil)
next
  case (Cons s srcs)
  obtain lx ly where s: "s = (lx, ly)" by (cases s)
  have "l0 \<le> max l0 (glow_value (x - lx) (y - ly))" by simp
  also have "\<dots> \<le> brightest srcs x y (max l0 (glow_value (x - lx) (y - ly)))" by (rule Cons.IH)
  finally show ?case by (simp add: s brightest_Cons)
qed

lemma place_lights_cells:
  assumes "rect m"
    and "\<forall>x y c. cell_at m x y = Some c \<longrightarrow> 0 \<le> light c"
    and "place_lights n w h m r = Some (m', r')"
  shows "r' = after (2 * n) r \<and> rect m' \<and>
     (\<forall>x y. cell_at m' x y =
        (case cell_at m x y of
           None \<Rightarrow> None
         | Some c \<Rightarrow> Some (if t c = FLOOR
                           then c\<lparr>light := brightest (light_sources n w h m r) x y (light c)\<rparr>
                           else c)))"
  using assms
proof (induction n arbitrary: m r)
  case 0
  then show ?case by (auto simp: after_0 brightest_Nil split: option.splits)
next
  case (Suc n)
  let ?lx = "randInt r 2 (w - 3)" and ?ly = "randInt (rest r) 2 (h - 3)"
  let ?r2 = "rest (rest r)"
  have aft: "after (2 * n) ?r2 = after (2 * Suc n) r" by (simp add: after_rest)
  from Suc.prems(3) obtain c0 where c0: "cell_at m ?lx ?ly = Some c0"
    by (auto simp: Let_def split: option.splits)
  show ?case
  proof (cases "t c0 = FLOOR")
    case False
    then have rec: "place_lights n w h m ?r2 = Some (m', r')"
      using Suc.prems(3) c0 by (simp add: Let_def)
    have src: "light_sources (Suc n) w h m r = light_sources n w h m ?r2"
      using c0 False by (simp add: Let_def)
    show ?thesis using Suc.IH[OF Suc.prems(1,2) rec] unfolding src aft by simp
  next
    case True
    from glow_cells[OF Suc.prems(1), of ?lx ?ly light_offsets] obtain m1 where
      g: "glow m ?lx ?ly light_offsets = Some m1" and r1: "rect m1"
      and c1: "\<And>x y. cell_at m1 x y =
        (case cell_at m x y of
           None \<Rightarrow> None
         | Some c \<Rightarrow> Some (if t c = FLOOR \<and> (x - ?lx, y - ?ly) \<in> set light_offsets
                           then c\<lparr>light := max (light c) (glow_value (x - ?lx) (y - ?ly))\<rparr>
                           else c))" by blast
    have rec: "place_lights n w h m1 ?r2 = Some (m', r')"
      using Suc.prems(3) c0 True g by (simp add: Let_def)
    have tiles: "\<And>x y. map_option t (cell_at m1 x y) = map_option t (cell_at m x y)"
      by (simp add: c1 split: option.splits)
    have nn: "\<forall>x y c. cell_at m1 x y = Some c \<longrightarrow> 0 \<le> light c"
    proof (intro allI impI)
      fix x y c assume "cell_at m1 x y = Some c"
      then show "0 \<le> light c" using c1[of x y] Suc.prems(2)
        by (auto split: option.splits if_splits simp: max_def glow_value_nonneg)
    qed
    have src: "light_sources (Suc n) w h m r = (?lx, ?ly) # light_sources n w h m1 ?r2"
      using c0 True light_sources_tiles[of m1 m, OF tiles] by (simp add: Let_def)
    from Suc.IH[OF r1 nn rec] have ih: "r' = after (2 * n) ?r2" "rect m'"
      "\<And>x y. cell_at m' x y =
        (case cell_at m1 x y of
           None \<Rightarrow> None
         | Some c \<Rightarrow> Some (if t c = FLOOR
                           then c\<lparr>light := brightest (light_sources n w h m1 ?r2) x y (light c)\<rparr>
                           else c))" by blast+
    have cells: "\<forall>x y. cell_at m' x y =
        (case cell_at m x y of
           None \<Rightarrow> None
         | Some c \<Rightarrow> Some (if t c = FLOOR
                           then c\<lparr>light := brightest (light_sources (Suc n) w h m r) x y (light c)\<rparr>
                           else c))"
    proof (intro allI)
      fix x y
      show "cell_at m' x y =
        (case cell_at m x y of
           None \<Rightarrow> None
         | Some c \<Rightarrow> Some (if t c = FLOOR
                           then c\<lparr>light := brightest (light_sources (Suc n) w h m r) x y (light c)\<rparr>
                           else c))"
      proof (cases "cell_at m x y")
        case None
        then show ?thesis using ih(3)[of x y] c1[of x y] by simp
      next
        case (Some c)
        show ?thesis
        proof (cases "t c = FLOOR")
          case False
          then show ?thesis using ih(3)[of x y] c1[of x y] Some by simp
        next
          case fl: True
          have l0: "0 \<le> light c" using Suc.prems(2) Some by blast
          have far: "(x - ?lx, y - ?ly) \<notin> set light_offsets \<Longrightarrow>
              max (light c) (glow_value (x - ?lx) (y - ?ly)) = light c"
            using glow_value_far[of "x - ?lx" "y - ?ly"] l0 by simp
          show ?thesis using ih(3)[of x y] c1[of x y] Some fl far
            unfolding src brightest_Cons by (auto split: if_splits)
        qed
      qed
    qed
    show ?thesis using ih(1,2) cells unfolding aft by blast
  qed
qed

lemma shuffle_from_rng0: "snd (shuffle_from k a rng0) = rng0"
  by (induction k arbitrary: a) (simp_all add: Let_def rest_rng0)

lemma shuffle_snd_rng0: "snd (shuffle rng0 a) = rng0"
  by (simp add: shuffle_def shuffle_from_rng0)

lemma maze_loop_rng0: "r = rng0 \<Longrightarrow> maze_loop m stack r = Some (m', r') \<Longrightarrow> r' = rng0"
proof (induction m stack r rule: maze_loop.induct)
  case (1 m r)
  then show ?case by (simp add: maze_loop.simps)
next
  case (2 m cx cy stack r)
  obtain order r1 where sh: "shuffle r maze_dirs = (order, r1)" by (cases "shuffle r maze_dirs")
  have r1: "r1 = rng0" using sh shuffle_snd_rng0[of maze_dirs] "2.prems"(1) by simp
  show ?case
  proof (cases "try_dirs m cx cy order")
    case Thrown
    then show ?thesis using "2.prems"(2) sh by (simp add: maze_loop.simps)
  next
    case Blocked
    then show ?thesis using "2.IH"(1)[OF sh[symmetric] Blocked r1] "2.prems"(2) sh
      by (simp add: maze_loop.simps)
  next
    case (Carved m1 nx ny)
    then show ?thesis using "2.IH"(2)[OF sh[symmetric] Carved r1] "2.prems"(2) sh
      by (simp add: maze_loop.simps)
  qed
qed

lemma maze20_map:
  "map_option fst (maze_loop (carve (makeEmptyMap 20 10) 11 5) [(11, 5)] rng0) = Some g20"
  by code_simp

lemma maze20: "maze_loop (carve (makeEmptyMap 20 10) 11 5) [(11, 5)] rng0 = Some (g20, rng0)"
proof -
  from maze20_map obtain r' where
    m: "maze_loop (carve (makeEmptyMap 20 10) 11 5) [(11, 5)] rng0 = Some (g20, r')"
    by auto
  then show ?thesis using maze_loop_rng0[OF refl m] by simp
qed

lemma wall_g20: "cell_at g20 2 2 = Some empty_cell"
  by code_simp

lemma floor_g20: "map_option t (cell_at g20 11 5) = Some FLOOR"
  by code_simp

lemma lit_g20: "lit_cells g20 = []"
  by code_simp

lemma rect_g20: "rect g20"
  by (simp add: rect_def g20_def cells_of_def)

lemma gen20: "generateLayout 20 10 rng0 = Some (g20, rng0)"
proof -
  have one: "(20 * 10) div 200 = Suc 0" by simp
  have "place_lights (Suc 0) 20 10 g20 rng0 = Some (g20, rng0)"
    by (simp add: Let_def randInt_def draw_rng0 rest_rng0 wall_g20 empty_cell_def)
  then show ?thesis
    by (simp add: generateLayout_def or_one_eq Let_def maze20)
qed

lemma lit_cells_iff:
  assumes "rect m"
  shows "(x, y) \<in> set (lit_cells m) \<longleftrightarrow> (\<exists>c. cell_at m x y = Some c \<and> light c \<noteq> 0)"
  unfolding lit_cells_def cells_member[where P = "\<lambda>c. light c \<noteq> 0"]
  using rect_row[OF assms, of "nat y"] by (auto simp: cell_at_def)

lemma floor_at_cell: "rect m \<Longrightarrow> floor_at m x y \<longleftrightarrow> map_option t (cell_at m x y) = Some FLOOR"
  using rect_inBounds[of m x y] by (auto simp: floor_at_def split: option.splits)

text \<open>The map and the stream the lighting pass of \<open>generateLayout\<close> starts from.\<close>

lemma generateLayout_parts:
  assumes "generateLayout w h r = Some (m', r')"
  obtains m1 r1 m2 r2 where
    "maze_loop (carve (makeEmptyMap w h) ((int w div 2) OR 1) ((int h div 2) OR 1))
       [((int w div 2) OR 1, (int h div 2) OR 1)] r = Some (m1, r1)"
    "punch_rooms ((w * h) div 400) (int w) (int h) m1 r1 = (m2, r2)"
    "place_lights ((w * h) div 200) (int w) (int h) m2 r2 = Some (m', r')"
    "dims w h m2" "dark m2"
proof -
  let ?P = "\<lambda>m. dims w h m \<and> dark m"
  have keep: "\<And>m x y. ?P m \<Longrightarrow> ?P (carve m x y)" by (simp add: dims_carve dark_carve)
  let ?m0 = "carve (makeEmptyMap w h) ((int w div 2) OR 1) ((int h div 2) OR 1)"
  have p0: "?P ?m0" by (simp add: dims_carve dark_carve dims_makeEmptyMap dark_makeEmptyMap)
  from assms obtain m1 r1 where
    mz: "maze_loop ?m0 [((int w div 2) OR 1, (int h div 2) OR 1)] r = Some (m1, r1)"
    by (auto simp: generateLayout_def Let_def split: option.splits)
  obtain m2 r2 where ro: "punch_rooms ((w * h) div 400) (int w) (int h) m1 r1 = (m2, r2)"
    by (cases "punch_rooms ((w * h) div 400) (int w) (int h) m1 r1")
  have li: "place_lights ((w * h) div 200) (int w) (int h) m2 r2 = Some (m', r')"
    using assms mz ro by (simp add: generateLayout_def Let_def)
  have p1: "?P m1" by (rule maze_loop_keeps[of ?P, OF keep p0 mz])
  have p2: "?P m2" by (rule punch_rooms_keeps[of ?P, OF keep p1 ro])
  show ?thesis using that mz ro li p2 by blast
qed

text \<open>
  C7 as stated fails: for 20 columns and 10 rows one light is due; with all draws 0 it
  is drawn at (2,2), a Wall cell, and skipped. The map has Floor cells and no light at all,
  which no single source on a Floor cell can account for.
\<close>

theorem light_count_counterexample:
  "generateLayout 20 10 rng0 = Some (g20, rng0)
   \<and> (20 * 10) div 200 = (1::nat)
   \<and> map_option t (cell_at g20 11 5) = Some FLOOR
   \<and> lit_cells g20 = []
   \<and> \<not> (\<exists>srcs. length srcs = (20 * 10) div 200
            \<and> (\<forall>(lx, ly) \<in> set srcs. floor_at g20 lx ly)
            \<and> (\<forall>x y c. cell_at g20 x y = Some c \<longrightarrow> t c = FLOOR \<longrightarrow>
                  light c = brightest srcs x y 0))"
proof -
  have "\<not> (\<exists>srcs. length srcs = (20 * 10) div 200
            \<and> (\<forall>(lx, ly) \<in> set srcs. floor_at g20 lx ly)
            \<and> (\<forall>x y c. cell_at g20 x y = Some c \<longrightarrow> t c = FLOOR \<longrightarrow>
                  light c = brightest srcs x y 0))"
  proof
    assume "\<exists>srcs. length srcs = (20 * 10) div 200
            \<and> (\<forall>(lx, ly) \<in> set srcs. floor_at g20 lx ly)
            \<and> (\<forall>x y c. cell_at g20 x y = Some c \<longrightarrow> t c = FLOOR \<longrightarrow>
                  light c = brightest srcs x y 0)"
    then obtain srcs where len: "length srcs = Suc 0"
      and fl: "\<forall>(lx, ly) \<in> set srcs. floor_at g20 lx ly"
      and li: "\<forall>x y c. cell_at g20 x y = Some c \<longrightarrow> t c = FLOOR \<longrightarrow>
                  light c = brightest srcs x y 0" by auto
    from len obtain lx ly where s: "srcs = [(lx, ly)]"
      by (cases srcs) (auto simp: length_Suc_conv)
    from fl s have "floor_at g20 lx ly" by simp
    then obtain c where c: "cell_at g20 lx ly = Some c" "t c = FLOOR"
      by (auto simp: floor_at_def split: option.splits)
    then have "light c = brightest srcs lx ly 0" using li by blast
    then have "light c = 1" by (simp add: s brightest_Cons brightest_Nil glow_value_origin)
    then have "(lx, ly) \<in> set (lit_cells g20)" using c(1) lit_cells_iff[OF rect_g20] by auto
    then show False by (simp add: lit_g20)
  qed
  then show ?thesis using gen20 floor_g20 lit_g20 by simp
qed

section \<open>Paths\<close>

lemma adjacent_sym: "adjacent a b \<Longrightarrow> adjacent b a"
  by (auto simp: adjacent_def)

lemma walk_nonempty: "walk m p \<Longrightarrow> p \<noteq> []"
  by (cases p) auto

lemma walk_floor: "walk m p \<Longrightarrow> a \<in> set p \<Longrightarrow> floor_at m (fst a) (snd a)"
  by (induction m p rule: walk.induct) auto

lemma walk_append:
  "walk m p \<Longrightarrow> walk m q \<Longrightarrow> adjacent (last p) (hd q) \<Longrightarrow> walk m (p @ q)"
proof (induction m p rule: walk.induct)
  case (1 m)
  then show ?case by simp
next
  case (2 m a)
  then show ?case by (cases q) auto
next
  case (3 m a b p)
  then show ?case by auto
qed

lemma walk_rev: "walk m p \<Longrightarrow> walk m (rev p)"
proof (induction m p rule: walk.induct)
  case (1 m)
  then show ?case by simp
next
  case (2 m a)
  then show ?case by simp
next
  case (3 m a b p)
  have "walk m (rev (b # p))" using 3 by simp
  moreover have "walk m [a]" using "3.prems" by simp
  moreover have "adjacent (last (rev (b # p))) (hd [a])"
    using "3.prems" by (simp add: adjacent_sym)
  ultimately have "walk m (rev (b # p) @ [a])" by (rule walk_append)
  then show ?case by simp
qed

lemma walk_tl: "walk m (a # b # p) \<Longrightarrow> walk m (b # p)"
  by simp

lemma walk_mono:
  "(\<And>x y. floor_at m x y \<Longrightarrow> floor_at m' x y) \<Longrightarrow> walk m p \<Longrightarrow> walk m' p"
  by (induction m p rule: walk.induct) auto

lemma joined_refl: "floor_at m (fst a) (snd a) \<Longrightarrow> joined m a a"
  unfolding joined_def by (rule exI[of _ "[a]"]) simp

lemma joined_sym: "joined m a b \<Longrightarrow> joined m b a"
  unfolding joined_def
proof (elim exE conjE)
  fix p assume p: "walk m p" "hd p = a" "last p = b"
  have ne: "p \<noteq> []" by (rule walk_nonempty[OF p(1)])
  show "\<exists>q. walk m q \<and> hd q = b \<and> last q = a"
    using walk_rev[OF p(1)] p(2,3) ne
    by (intro exI[of _ "rev p"]) (simp add: hd_rev last_rev)
qed

lemma joined_step:
  assumes "joined m a b" "floor_at m (fst c) (snd c)" "adjacent b c"
  shows "joined m a c"
proof -
  from assms(1) obtain p where p: "walk m p" "hd p = a" "last p = b"
    unfolding joined_def by blast
  have ne: "p \<noteq> []" by (rule walk_nonempty[OF p(1)])
  have "walk m (p @ [c])" by (rule walk_append[OF p(1)]) (use assms p in auto)
  then show ?thesis unfolding joined_def using p(2) ne
    by (intro exI[of _ "p @ [c]"]) simp
qed

lemma joined_trans:
  assumes "joined m a b" "joined m b c"
  shows "joined m a c"
proof -
  from assms(2) obtain q where q: "walk m q" "hd q = b" "last q = c"
    unfolding joined_def by blast
  from q assms(1) show ?thesis
  proof (induction m q arbitrary: b rule: walk.induct)
    case (1 m)
    then show ?case by simp
  next
    case (2 m a')
    then show ?case by simp
  next
    case (3 m a' b' p)
    have "floor_at m (fst b') (snd b')"
      by (rule walk_floor[of m "b' # p"]) (use "3.prems" in auto)
    then have "joined m a b'" by (intro joined_step[OF "3.prems"(4)]) (use "3.prems" in auto)
    then show ?case using "3.IH"[of b'] "3.prems" by simp
  qed
qed

lemma joined_mono:
  "(\<And>x y. floor_at m x y \<Longrightarrow> floor_at m' x y) \<Longrightarrow> joined m a b \<Longrightarrow> joined m' a b"
  unfolding joined_def using walk_mono[of m m'] by blast

lemma joined_floor: "joined m a b \<Longrightarrow> floor_at m (fst a) (snd a) \<and> floor_at m (fst b) (snd b)"
  unfolding joined_def
  by (metis hd_in_set last_in_set walk_floor walk_nonempty)

text \<open>When every Floor cell is joined to one cell, the map is connected.\<close>

lemma connected_via:
  assumes "\<And>a. floor_at m (fst a) (snd a) \<Longrightarrow> joined m a s"
  shows "connected m"
  unfolding connected_def joined_def[symmetric]
  using assms joined_sym joined_trans by blast

section \<open>The backtracker\<close>

lemma dims_inBounds: "dims w h m \<Longrightarrow> inBounds m x y \<longleftrightarrow> 0 \<le> x \<and> x < int w \<and> 0 \<le> y \<and> y < int h"
proof -
  assume d: "dims w h m"
  show ?thesis
  proof (cases "h = 0")
    case True
    then show ?thesis using d by (auto simp: dims_def inBounds_def)
  next
    case False
    then have "m ! 0 \<in> set m" using d by (auto simp: dims_def)
    then have "length (m ! 0) = w" using d by (simp add: dims_def)
    then show ?thesis using d by (auto simp: dims_def inBounds_def)
  qed
qed

lemma floor_at_carve:
  assumes "dims w h m"
  shows "floor_at (carve m x y) x' y' \<longleftrightarrow> floor_at m x' y' \<or> (x' = x \<and> y' = y \<and> inBounds m x y)"
proof -
  have r: "rect m" by (rule dims_rect[OF assms])
  have r': "rect (carve m x y)" by (rule dims_rect[OF dims_carve[OF assms]])
  show ?thesis
    unfolding floor_at_cell[OF r] floor_at_cell[OF r'] rect_inBounds[OF r] cell_at_carve
    by (auto split: option.splits)
qed

text \<open>What the loop over the directions finds on a rectangular map.\<close>

lemma try_dirs_cases:
  assumes "rect m"
  shows "(try_dirs m cx cy ds = Blocked
          \<and> (\<forall>(dx, dy) \<in> set ds. inBounds m (cx + dx) (cy + dy) \<longrightarrow> floor_at m (cx + dx) (cy + dy)))
       \<or> (\<exists>(dx, dy) \<in> set ds. inBounds m (cx + dx) (cy + dy) \<and> \<not> floor_at m (cx + dx) (cy + dy)
            \<and> try_dirs m cx cy ds
                = Carved (carve (carve m (cx + dx) (cy + dy)) (cx + dx div 2) (cy + dy div 2))
                         (cx + dx) (cy + dy))"
proof (induction ds)
  case Nil
  then show ?case by simp
next
  case (Cons d ds)
  obtain dx dy where d: "d = (dx, dy)" by (cases d)
  show ?case
  proof (cases "inBounds m (cx + dx) (cy + dy)")
    case False
    then have "try_dirs m cx cy (d # ds) = try_dirs m cx cy ds" using d by simp
    then show ?thesis using Cons d False by auto
  next
    case True
    then obtain c where c: "cell_at m (cx + dx) (cy + dy) = Some c"
      using rect_inBounds[OF assms] by auto
    show ?thesis
    proof (cases "t c = WALL")
      case w: True
      then have "\<not> floor_at m (cx + dx) (cy + dy)" using c by (simp add: floor_at_def)
      moreover have "try_dirs m cx cy (d # ds)
                = Carved (carve (carve m (cx + dx) (cy + dy)) (cx + dx div 2) (cy + dy div 2))
                         (cx + dx) (cy + dy)"
        using d True c w by (simp add: Let_def)
      ultimately show ?thesis using True d by auto
    next
      case False
      then have f: "floor_at m (cx + dx) (cy + dy)"
        using c True by (cases "t c") (auto simp: floor_at_def)
      have "try_dirs m cx cy (d # ds) = try_dirs m cx cy ds"
        using d True c False by (simp add: Let_def)
      then show ?thesis using Cons d f by auto
    qed
  qed
qed

lemma inv_pop:
  assumes "maze_inv w h s m ((cx, cy) # stack)"
    and "\<forall>(dx, dy) \<in> set maze_dirs. inBounds m (cx + dx) (cy + dy) \<longrightarrow> floor_at m (cx + dx) (cy + dy)"
  shows "maze_inv w h s m stack"
proof -
  from assms(1) have dm: "dims w h m"
    and jn: "\<forall>a. floor_at m (fst a) (snd a) \<longrightarrow> joined m a s"
    and st: "\<forall>(x, y) \<in> set stack. odd x \<and> odd y \<and> floor_at m x y"
    and cl: "\<And>x y. floor_at m x y \<Longrightarrow> odd x \<Longrightarrow> odd y \<Longrightarrow> (x, y) \<notin> set ((cx, cy) # stack) \<Longrightarrow>
         (\<forall>(dx, dy) \<in> set maze_dirs.
            inBounds m (x + dx) (y + dy) \<longrightarrow> floor_at m (x + dx) (y + dy))"
    unfolding maze_inv_def by auto
  have "\<forall>x y. floor_at m x y \<and> odd x \<and> odd y \<and> (x, y) \<notin> set stack \<longrightarrow>
         (\<forall>(dx, dy) \<in> set maze_dirs.
            inBounds m (x + dx) (y + dy) \<longrightarrow> floor_at m (x + dx) (y + dy))"
  proof (intro allI impI, elim conjE)
    fix x y assume a: "floor_at m x y" "odd x" "odd y" "(x, y) \<notin> set stack"
    show "\<forall>(dx, dy) \<in> set maze_dirs.
            inBounds m (x + dx) (y + dy) \<longrightarrow> floor_at m (x + dx) (y + dy)"
    proof (cases "(x, y) = (cx, cy)")
      case True
      then show ?thesis using assms(2) by simp
    next
      case False
      then have "(x, y) \<notin> set ((cx, cy) # stack)" using a(4) by simp
      then show ?thesis by (rule cl[OF a(1,2,3)])
    qed
  qed
  then show ?thesis unfolding maze_inv_def using dm jn st by blast
qed

lemma inv_push:
  assumes inv: "maze_inv w h s m ((cx, cy) # stack)"
    and d: "(dx, dy) \<in> set maze_dirs"
    and ib: "inBounds m (cx + dx) (cy + dy)"
  shows "maze_inv w h s (carve (carve m (cx + dx) (cy + dy)) (cx + dx div 2) (cy + dy div 2))
           ((cx + dx, cy + dy) # (cx, cy) # stack)"
proof -
  let ?nx = "cx + dx" and ?ny = "cy + dy"
  let ?mx = "cx + dx div 2" and ?my = "cy + dy div 2"
  let ?m1 = "carve m ?nx ?ny"
  let ?m2 = "carve ?m1 ?mx ?my"
  from inv have dm: "dims w h m"
    and jn: "\<And>a. floor_at m (fst a) (snd a) \<Longrightarrow> joined m a s"
    and cf: "odd cx" "odd cy" "floor_at m cx cy"
    and st: "\<forall>(x, y) \<in> set stack. odd x \<and> odd y \<and> floor_at m x y"
    and cl: "\<And>x y. floor_at m x y \<Longrightarrow> odd x \<Longrightarrow> odd y \<Longrightarrow> (x, y) \<notin> set ((cx, cy) # stack) \<Longrightarrow>
         (\<forall>(dx, dy) \<in> set maze_dirs.
            inBounds m (x + dx) (y + dy) \<longrightarrow> floor_at m (x + dx) (y + dy))"
    unfolding maze_inv_def by auto
  have d1: "dims w h ?m1" by (rule dims_carve[OF dm])
  have d2: "dims w h ?m2" by (rule dims_carve[OF d1])
  have cb: "inBounds m cx cy" using cf(3) by (simp add: floor_at_def)
  have mb: "inBounds m ?mx ?my"
    using d ib cb unfolding dims_inBounds[OF dm] by (auto simp: maze_dirs_def)
  have ib1: "inBounds ?m1 ?mx ?my" using mb unfolding dims_inBounds[OF dm] dims_inBounds[OF d1] .
  have ib2: "\<And>x y. inBounds ?m2 x y \<longleftrightarrow> inBounds m x y"
    unfolding dims_inBounds[OF dm] dims_inBounds[OF d2] by simp
  have fl: "\<And>x y. floor_at ?m2 x y \<longleftrightarrow>
      floor_at m x y \<or> (x = ?nx \<and> y = ?ny) \<or> (x = ?mx \<and> y = ?my)"
    unfolding floor_at_carve[OF d1] floor_at_carve[OF dm] using ib ib1 by auto
  have mono: "\<And>x y. floor_at m x y \<Longrightarrow> floor_at ?m2 x y" by (simp add: fl)
  have odd_n: "odd ?nx" "odd ?ny" using d cf(1,2) by (auto simp: maze_dirs_def)
  have even_m: "\<not> (odd ?mx \<and> odd ?my)" using d cf(1,2) by (auto simp: maze_dirs_def)
  have adj_mc: "adjacent (?mx, ?my) (cx, cy)" using d by (auto simp: maze_dirs_def adjacent_def)
  have adj_nm: "adjacent (?nx, ?ny) (?mx, ?my)" using d by (auto simp: maze_dirs_def adjacent_def)
  have jc: "joined ?m2 (cx, cy) s" by (rule joined_mono[OF mono jn]) (use cf(3) in simp_all)
  have jm: "joined ?m2 (?mx, ?my) s"
  proof -
    have "joined ?m2 (?mx, ?my) (?mx, ?my)" by (rule joined_refl) (simp add: fl)
    then have "joined ?m2 (?mx, ?my) (cx, cy)"
      by (rule joined_step) (use cf(3) adj_mc in \<open>simp_all add: fl\<close>)
    then show ?thesis using jc by (rule joined_trans)
  qed
  have jnn: "joined ?m2 (?nx, ?ny) s"
  proof -
    have "joined ?m2 (?nx, ?ny) (?nx, ?ny)" by (rule joined_refl) (simp add: fl)
    then have "joined ?m2 (?nx, ?ny) (?mx, ?my)"
      by (rule joined_step) (use adj_nm in \<open>simp_all add: fl\<close>)
    then show ?thesis using jm by (rule joined_trans)
  qed
  have 2: "\<forall>a. floor_at ?m2 (fst a) (snd a) \<longrightarrow> joined ?m2 a s"
  proof (intro allI impI)
    fix a assume "floor_at ?m2 (fst a) (snd a)"
    then consider "floor_at m (fst a) (snd a)" | "a = (?nx, ?ny)" | "a = (?mx, ?my)"
      unfolding fl by (cases a) auto
    then show "joined ?m2 a s"
    proof cases
      case 1
      then show ?thesis by (intro joined_mono[OF mono jn])
    next
      case 2
      then show ?thesis using jnn by simp
    next
      case 3
      then show ?thesis using jm by simp
    qed
  qed
  have 3: "\<forall>(x, y) \<in> set ((?nx, ?ny) # (cx, cy) # stack). odd x \<and> odd y \<and> floor_at ?m2 x y"
    using odd_n cf st by (auto simp: fl)
  have 4: "\<forall>x y. floor_at ?m2 x y \<and> odd x \<and> odd y \<and> (x, y) \<notin> set ((?nx, ?ny) # (cx, cy) # stack) \<longrightarrow>
         (\<forall>(ex, ey) \<in> set maze_dirs.
            inBounds ?m2 (x + ex) (y + ey) \<longrightarrow> floor_at ?m2 (x + ex) (y + ey))"
  proof (intro allI impI, elim conjE)
    fix x y assume a: "floor_at ?m2 x y" "odd x" "odd y"
      "(x, y) \<notin> set ((?nx, ?ny) # (cx, cy) # stack)"
    have "floor_at m x y" using a even_m unfolding fl by auto
    from cl[OF this a(2,3)] a(4)
    have "\<forall>(ex, ey) \<in> set maze_dirs.
            inBounds m (x + ex) (y + ey) \<longrightarrow> floor_at m (x + ex) (y + ey)" by simp
    then show "\<forall>(ex, ey) \<in> set maze_dirs.
            inBounds ?m2 (x + ex) (y + ey) \<longrightarrow> floor_at ?m2 (x + ex) (y + ey)"
      unfolding ib2 using mono by blast
  qed
  show ?thesis unfolding maze_inv_def using d2 2 3 4 by blast
qed

lemma maze_loop_inv:
  "maze_inv w h s m stack \<Longrightarrow> unit_draws r \<Longrightarrow>
     \<exists>m' r'. maze_loop m stack r = Some (m', r') \<and> maze_inv w h s m' [] \<and> unit_draws r'"
proof (induction m stack r rule: maze_loop.induct)
  case (1 m r)
  then show ?case by (simp add: maze_loop.simps)
next
  case (2 m cx cy stack r)
  obtain order r1 where sh: "shuffle r maze_dirs = (order, r1)" by (cases "shuffle r maze_dirs")
  have so: "set order = set maze_dirs" using shuffle_set[OF "2.prems"(2), of maze_dirs] sh by simp
  have u1: "unit_draws r1" using unit_draws_shuffle[OF "2.prems"(2), of maze_dirs] sh by simp
  have dm: "dims w h m" using "2.prems"(1) by (simp add: maze_inv_def)
  from try_dirs_cases[OF dims_rect[OF dm], of cx cy order]
  show ?case
  proof
    assume b: "try_dirs m cx cy order = Blocked
          \<and> (\<forall>(dx, dy) \<in> set order. inBounds m (cx + dx) (cy + dy) \<longrightarrow> floor_at m (cx + dx) (cy + dy))"
    then have "maze_inv w h s m stack" using inv_pop[OF "2.prems"(1)] so by simp
    from "2.IH"(1)[OF sh[symmetric] conjunct1[OF b] this u1] show ?thesis
      using sh b by (simp add: maze_loop.simps)
  next
    assume "\<exists>(dx, dy) \<in> set order. inBounds m (cx + dx) (cy + dy) \<and> \<not> floor_at m (cx + dx) (cy + dy)
            \<and> try_dirs m cx cy order
                = Carved (carve (carve m (cx + dx) (cy + dy)) (cx + dx div 2) (cy + dy div 2))
                         (cx + dx) (cy + dy)"
    then obtain dx dy where d: "(dx, dy) \<in> set maze_dirs" "inBounds m (cx + dx) (cy + dy)"
      and c: "try_dirs m cx cy order
                = Carved (carve (carve m (cx + dx) (cy + dy)) (cx + dx div 2) (cy + dy div 2))
                         (cx + dx) (cy + dy)"
      using so by auto
    note inv' = inv_push[OF "2.prems"(1) d]
    from "2.IH"(2)[OF sh[symmetric] c inv' u1] show ?thesis
      using sh c by (simp add: maze_loop.simps)
  qed
qed

text \<open>With the stack empty, every cell with odd coordinates inside the map is Floor.\<close>

lemma nodes_floor:
  assumes inv: "maze_inv w h (sx, sy) m []"
    and s: "floor_at m sx sy" "odd sx" "odd sy"
  shows "odd x \<Longrightarrow> odd y \<Longrightarrow> inBounds m x y \<Longrightarrow> floor_at m x y"
proof (induction "nat (\<bar>x - sx\<bar> + \<bar>y - sy\<bar>)" arbitrary: x y rule: less_induct)
  case less
  from inv have dm: "dims w h m"
    and cl: "\<And>x y. floor_at m x y \<Longrightarrow> odd x \<Longrightarrow> odd y \<Longrightarrow>
         (\<forall>(dx, dy) \<in> set maze_dirs.
            inBounds m (x + dx) (y + dy) \<longrightarrow> floor_at m (x + dx) (y + dy))"
    unfolding maze_inv_def by auto
  have sb: "inBounds m sx sy" using s(1) by (simp add: floor_at_def)
  note ib = dims_inBounds[OF dm]
  show ?case
  proof (cases "x = sx")
    case False
    define x' where "x' = (if sx < x then x - 2 else x + 2)"
    have far: "2 \<le> \<bar>x - sx\<bar>" using False less.prems(1) s(2) by presburger
    have o: "odd x'" using less.prems(1) by (simp add: x'_def)
    have b: "inBounds m x' y" using less.prems(3) sb far unfolding ib x'_def by auto
    have "nat (\<bar>x' - sx\<bar> + \<bar>y - sy\<bar>) < nat (\<bar>x - sx\<bar> + \<bar>y - sy\<bar>)"
      using far unfolding x'_def by auto
    from less.hyps[OF this o less.prems(2) b] have f: "floor_at m x' y" .
    have "(x - x', 0) \<in> set maze_dirs" unfolding x'_def maze_dirs_def by auto
    with cl[OF f o less.prems(2)] less.prems(3) show ?thesis by fastforce
  next
    case True
    show ?thesis
    proof (cases "y = sy")
      case True
      then show ?thesis using \<open>x = sx\<close> s(1) by simp
    next
      case False
      define y' where "y' = (if sy < y then y - 2 else y + 2)"
      have far: "2 \<le> \<bar>y - sy\<bar>" using False less.prems(2) s(3) by presburger
      have o: "odd y'" using less.prems(2) by (simp add: y'_def)
      have b: "inBounds m x y'" using less.prems(3) sb far unfolding ib y'_def by auto
      have "nat (\<bar>x - sx\<bar> + \<bar>y' - sy\<bar>) < nat (\<bar>x - sx\<bar> + \<bar>y - sy\<bar>)"
        using far unfolding y'_def by auto
      from less.hyps[OF this less.prems(1) o b] have f: "floor_at m x y'" .
      have "(0, y - y') \<in> set maze_dirs" unfolding y'_def maze_dirs_def by auto
      with cl[OF f less.prems(1) o] less.prems(3) show ?thesis by fastforce
    qed
  qed
qed

section \<open>Rooms\<close>

lemma randInt_range:
  assumes "unit_draws r"
  shows "lo \<le> hi \<Longrightarrow> lo \<le> randInt r lo hi \<and> randInt r lo hi \<le> hi"
    and "hi < lo \<Longrightarrow> hi < randInt r lo hi \<and> randInt r lo hi \<le> lo"
proof -
  have d: "0 \<le> draw r" "draw r < 1" using unit_draws_draw[OF assms] by auto
  define n where "n = hi - lo + 1"
  define v where "v = \<lfloor>draw r * of_int n\<rfloor>"
  have ri: "randInt r lo hi = v + lo" by (simp add: randInt_def v_def n_def)
  {
    assume "lo \<le> hi"
    then have n: "0 < (of_int n :: real)" by (simp add: n_def)
    have "0 \<le> draw r * of_int n" using d(1) n by simp
    then have 1: "0 \<le> v" unfolding v_def by (simp only: zero_le_floor)
    have "draw r * of_int n < of_int n" using d(2) n by simp
    then have 2: "v < n" unfolding v_def by (simp only: floor_less_iff)
    show "lo \<le> randInt r lo hi \<and> randInt r lo hi \<le> hi"
      using 1 2 unfolding ri n_def by linarith
  }
  {
    assume "hi < lo"
    then have n: "(of_int n :: real) \<le> 0" by (simp add: n_def)
    have "draw r * of_int n \<le> 0" using d(1) n by (simp add: mult_nonneg_nonpos)
    then have "draw r * of_int n < of_int 0 + 1" by simp
    then have 1: "v \<le> 0" unfolding v_def by (simp only: floor_le_iff)
    have "1 * (of_int n :: real) \<le> draw r * of_int n"
      by (rule mult_right_mono_neg) (use d(2) n in auto)
    then have "of_int n \<le> draw r * of_int n" by simp
    then have 2: "n \<le> v" unfolding v_def by (simp only: le_floor_iff)
    show "hi < randInt r lo hi \<and> randInt r lo hi \<le> lo"
      using 1 2 unfolding ri n_def by linarith
  }
qed

lemma carve_row_floor:
  assumes "dims w h m"
  shows "dims w h (foldl (\<lambda>m'' x. carve m'' x y0) m xs)
     \<and> (\<forall>x y. floor_at (foldl (\<lambda>m'' x. carve m'' x y0) m xs) x y
           \<longleftrightarrow> floor_at m x y \<or> (y = y0 \<and> x \<in> set xs \<and> inBounds m x y))"
  using assms
proof (induction xs arbitrary: m)
  case Nil
  then show ?case by simp
next
  case (Cons x0 xs)
  have d1: "dims w h (carve m x0 y0)" by (rule dims_carve[OF Cons.prems])
  have ib: "\<And>x y. inBounds (carve m x0 y0) x y \<longleftrightarrow> inBounds m x y"
    unfolding dims_inBounds[OF d1] dims_inBounds[OF Cons.prems] by simp
  show ?case using Cons.IH[OF d1] unfolding ib floor_at_carve[OF Cons.prems] by auto
qed

lemma carve_rect_floor:
  assumes "dims w h m"
  shows "dims w h (carve_rect m rx ry rw rh)
     \<and> (\<forall>x y. floor_at (carve_rect m rx ry rw rh) x y
           \<longleftrightarrow> floor_at m x y
               \<or> (rx \<le> x \<and> x \<le> rx + rw - 1 \<and> ry \<le> y \<and> y \<le> ry + rh - 1 \<and> inBounds m x y))"
proof -
  have "\<And>m. dims w h m \<Longrightarrow>
      dims w h (foldl (\<lambda>m' y. foldl (\<lambda>m'' x. carve m'' x y) m' [rx..rx + rw - 1]) m ys)
     \<and> (\<forall>x y. floor_at (foldl (\<lambda>m' y. foldl (\<lambda>m'' x. carve m'' x y) m' [rx..rx + rw - 1]) m ys) x y
           \<longleftrightarrow> floor_at m x y
               \<or> (y \<in> set ys \<and> x \<in> set [rx..rx + rw - 1] \<and> inBounds m x y))" for ys
  proof (induction ys)
    case Nil
    then show ?case by simp
  next
    case (Cons y0 ys)
    let ?m1 = "foldl (\<lambda>m'' x. carve m'' x y0) m [rx..rx + rw - 1]"
    from carve_row_floor[OF Cons.prems, of y0 "[rx..rx + rw - 1]"]
    have d1: "dims w h ?m1"
      and f1: "\<And>x y. floor_at ?m1 x y
           \<longleftrightarrow> floor_at m x y \<or> (y = y0 \<and> x \<in> set [rx..rx + rw - 1] \<and> inBounds m x y)"
      by blast+
    have ib: "\<And>x y. inBounds ?m1 x y \<longleftrightarrow> inBounds m x y"
      unfolding dims_inBounds[OF d1] dims_inBounds[OF Cons.prems] by simp
    show ?case using Cons.IH[OF d1] unfolding ib f1 by auto
  qed
  from this[OF assms, of "[ry..ry + rh - 1]"] show ?thesis
    unfolding carve_rect_def by auto
qed

text \<open>A rectangle of Floor cells is joined throughout.\<close>

lemma line_joined_h:
  assumes "\<And>x. min xa xb \<le> x \<Longrightarrow> x \<le> max xa xb \<Longrightarrow> floor_at m x y"
  shows "joined m (xa, y) (xb, y)"
  using assms
proof (induction "nat \<bar>xb - xa\<bar>" arbitrary: xb rule: less_induct)
  case less
  show ?case
  proof (cases "xb = xa")
    case True
    then show ?thesis using less.prems[of xa] by (auto intro: joined_refl)
  next
    case False
    define x' where "x' = (if xa < xb then xb - 1 else xb + 1)"
    have 1: "nat \<bar>x' - xa\<bar> < nat \<bar>xb - xa\<bar>" using False unfolding x'_def by auto
    have 2: "\<And>x. min xa x' \<le> x \<Longrightarrow> x \<le> max xa x' \<Longrightarrow> floor_at m x y"
      using less.prems False unfolding x'_def by (auto split: if_splits)
    have j: "joined m (xa, y) (x', y)" by (rule less.hyps[OF 1 2])
    have "floor_at m xb y" by (rule less.prems) auto
    moreover have "adjacent (x', y) (xb, y)" using False by (auto simp: x'_def adjacent_def)
    ultimately show ?thesis using joined_step[OF j, of "(xb, y)"] by simp
  qed
qed

lemma line_joined_v:
  assumes "\<And>y. min ya yb \<le> y \<Longrightarrow> y \<le> max ya yb \<Longrightarrow> floor_at m x y"
  shows "joined m (x, ya) (x, yb)"
  using assms
proof (induction "nat \<bar>yb - ya\<bar>" arbitrary: yb rule: less_induct)
  case less
  show ?case
  proof (cases "yb = ya")
    case True
    then show ?thesis using less.prems[of ya] by (auto intro: joined_refl)
  next
    case False
    define y' where "y' = (if ya < yb then yb - 1 else yb + 1)"
    have 1: "nat \<bar>y' - ya\<bar> < nat \<bar>yb - ya\<bar>" using False unfolding y'_def by auto
    have 2: "\<And>y. min ya y' \<le> y \<Longrightarrow> y \<le> max ya y' \<Longrightarrow> floor_at m x y"
      using less.prems False unfolding y'_def by (auto split: if_splits)
    have j: "joined m (x, ya) (x, y')" by (rule less.hyps[OF 1 2])
    have "floor_at m x yb" by (rule less.prems) auto
    moreover have "adjacent (x, y') (x, yb)" using False by (auto simp: y'_def adjacent_def)
    ultimately show ?thesis using joined_step[OF j, of "(x, yb)"] by simp
  qed
qed

lemma box_joined:
  assumes "\<And>x y. x1 \<le> x \<Longrightarrow> x \<le> x2 \<Longrightarrow> y1 \<le> y \<Longrightarrow> y \<le> y2 \<Longrightarrow> floor_at m x y"
    and "x1 \<le> xa" "xa \<le> x2" "y1 \<le> ya" "ya \<le> y2"
    and "x1 \<le> xb" "xb \<le> x2" "y1 \<le> yb" "yb \<le> y2"
  shows "joined m (xa, ya) (xb, yb)"
proof -
  have "joined m (xa, ya) (xb, ya)"
    by (rule line_joined_h, rule assms(1)) (use assms(2-9) in auto)
  moreover have "joined m (xb, ya) (xb, yb)"
    by (rule line_joined_v, rule assms(1)) (use assms(2-9) in auto)
  ultimately show ?thesis by (rule joined_trans)
qed

lemma room_step:
  assumes inv: "room_inv w h s m"
    and node: "odd x0" "odd y0" "rx \<le> x0" "x0 \<le> rx + rw - 1" "ry \<le> y0" "y0 \<le> ry + rh - 1"
      "inBounds m x0 y0"
  shows "room_inv w h s (carve_rect m rx ry rw rh)"
proof -
  let ?m' = "carve_rect m rx ry rw rh"
  from inv have dm: "dims w h m"
    and jn: "\<And>a. floor_at m (fst a) (snd a) \<Longrightarrow> joined m a s"
    and nd: "\<And>x y. odd x \<Longrightarrow> odd y \<Longrightarrow> inBounds m x y \<Longrightarrow> floor_at m x y"
    unfolding room_inv_def by auto
  from carve_rect_floor[OF dm, of rx ry rw rh] have d': "dims w h ?m'"
    and fl: "\<And>x y. floor_at ?m' x y
           \<longleftrightarrow> floor_at m x y
               \<or> (rx \<le> x \<and> x \<le> rx + rw - 1 \<and> ry \<le> y \<and> y \<le> ry + rh - 1 \<and> inBounds m x y)"
    by blast+
  note ib = dims_inBounds[OF dm]
  have ib': "\<And>x y. inBounds ?m' x y \<longleftrightarrow> inBounds m x y"
    unfolding dims_inBounds[OF d'] ib by simp
  have mono: "\<And>x y. floor_at m x y \<Longrightarrow> floor_at ?m' x y" by (simp add: fl)
  have j0: "joined ?m' (x0, y0) s"
    by (rule joined_mono[OF mono jn]) (use nd[OF node(1,2,7)] in simp_all)
  have 2: "\<forall>a. floor_at ?m' (fst a) (snd a) \<longrightarrow> joined ?m' a s"
  proof (intro allI impI)
    fix a assume a: "floor_at ?m' (fst a) (snd a)"
    obtain x y where xy: "a = (x, y)" by (cases a)
    show "joined ?m' a s"
    proof (cases "floor_at m x y")
      case True
      then show ?thesis unfolding xy by (intro joined_mono[OF mono jn]) simp_all
    next
      case False
      then have r: "rx \<le> x" "x \<le> rx + rw - 1" "ry \<le> y" "y \<le> ry + rh - 1" "inBounds m x y"
        using a unfolding xy fl by auto
      have "joined ?m' (x, y) (x0, y0)"
      proof (rule box_joined[where ?x1.0 = "max rx 0" and ?x2.0 = "min (rx + rw - 1) (int w - 1)"
            and ?y1.0 = "max ry 0" and ?y2.0 = "min (ry + rh - 1) (int h - 1)"])
        fix u v
        assume "max rx 0 \<le> u" "u \<le> min (rx + rw - 1) (int w - 1)"
          "max ry 0 \<le> v" "v \<le> min (ry + rh - 1) (int h - 1)"
        then show "floor_at ?m' u v" unfolding fl ib by auto
      qed (use r node(3-7) in \<open>auto simp: ib\<close>)
      then show ?thesis unfolding xy using j0 by (rule joined_trans)
    qed
  qed
  have 3: "\<forall>x y. odd x \<and> odd y \<and> inBounds ?m' x y \<longrightarrow> floor_at ?m' x y"
    unfolding ib' using nd mono by blast
  show ?thesis unfolding room_inv_def using d' 2 3 by blast
qed

lemma span_has_odd:
  assumes "unit_draws r" "3 \<le> n" "4 \<le> len"
  shows "\<exists>q. odd q \<and> randInt r 1 (n - len - 2) \<le> q \<and> q \<le> randInt r 1 (n - len - 2) + len - 1
           \<and> 0 \<le> q \<and> q < n"
proof (cases "1 \<le> n - len - 2")
  case True
  let ?p = "randInt r 1 (n - len - 2)"
  from randInt_range(1)[OF assms(1) True] have p: "1 \<le> ?p" "?p \<le> n - len - 2" by auto
  show ?thesis
  proof (cases "odd ?p")
    case True
    then show ?thesis using p assms by (intro exI[of _ ?p]) auto
  next
    case False
    then show ?thesis using p assms by (intro exI[of _ "?p + 1"]) auto
  qed
next
  case False
  let ?p = "randInt r 1 (n - len - 2)"
  from False have "n - len - 2 < 1" by simp
  from randInt_range(2)[OF assms(1) this] have p: "n - len - 2 < ?p" "?p \<le> 1" by auto
  show ?thesis using p assms by (intro exI[of _ 1]) auto
qed

lemma punch_rooms_inv:
  assumes "3 \<le> w" "3 \<le> h"
  shows "room_inv w h s m \<Longrightarrow> unit_draws r \<Longrightarrow> punch_rooms n (int w) (int h) m r = (m', r')
     \<Longrightarrow> room_inv w h s m' \<and> unit_draws r'"
proof (induction n arbitrary: m r)
  case 0
  then show ?case by simp
next
  case (Suc n)
  let ?rw = "randInt r 5 9" and ?rh = "randInt (rest r) 4 7"
  let ?rx = "randInt (rest (rest r)) 1 (int w - ?rw - 2)"
  let ?ry = "randInt (rest (rest (rest r))) 1 (int h - ?rh - 2)"
  let ?r4 = "rest (rest (rest (rest r)))"
  note u1 = unit_draws_rest[OF Suc.prems(2)]
  note u2 = unit_draws_rest[OF u1]
  note u3 = unit_draws_rest[OF u2]
  note u4 = unit_draws_rest[OF u3]
  have rw: "5 \<le> ?rw" using randInt_range(1)[OF Suc.prems(2), of 5 9] by simp
  have rh: "4 \<le> ?rh" using randInt_range(1)[OF u1, of 4 7] by simp
  from span_has_odd[OF u2, of "int w" ?rw] assms(1) rw obtain x0 where
    x0: "odd x0" "?rx \<le> x0" "x0 \<le> ?rx + ?rw - 1" "0 \<le> x0" "x0 < int w" by auto
  from span_has_odd[OF u3, of "int h" ?rh] assms(2) rh obtain y0 where
    y0: "odd y0" "?ry \<le> y0" "y0 \<le> ?ry + ?rh - 1" "0 \<le> y0" "y0 < int h" by auto
  have dm: "dims w h m" using Suc.prems(1) by (simp add: room_inv_def)
  have ib: "inBounds m x0 y0" unfolding dims_inBounds[OF dm] using x0 y0 by simp
  have inv1: "room_inv w h s (carve_rect m ?rx ?ry ?rw ?rh)"
    by (rule room_step[OF Suc.prems(1) x0(1) y0(1) x0(2,3) y0(2,3) ib])
  have rec: "punch_rooms n (int w) (int h) (carve_rect m ?rx ?ry ?rw ?rh) ?r4 = (m', r')"
    using Suc.prems(3) by (simp add: Let_def)
  show ?case by (rule Suc.IH[OF inv1 u4 rec])
qed

section \<open>The whole generator\<close>

lemma glow_dims: "dims w h m \<Longrightarrow> glow m lx ly offs = Some m' \<Longrightarrow> dims w h m'"
proof (induction offs arbitrary: m)
  case Nil
  then show ?case by simp
next
  case (Cons d offs)
  obtain ox oy where d: "d = (ox, oy)" by (cases d)
  show ?case using Cons.prems Cons.IH[OF Cons.prems(1)] Cons.IH[OF dims_set_cell[OF Cons.prems(1)]] d
    by (auto simp: Let_def split: if_splits option.splits)
qed

lemma light_coord:
  assumes "unit_draws r" "3 \<le> n"
  shows "0 \<le> randInt r 2 (n - 3) \<and> randInt r 2 (n - 3) < n"
proof (cases "2 \<le> n - 3")
  case True
  from randInt_range(1)[OF assms(1) True] show ?thesis by auto
next
  case False
  then have "n - 3 < 2" by simp
  from randInt_range(2)[OF assms(1) this] assms(2) show ?thesis by auto
qed

lemma place_lights_total:
  assumes "3 \<le> w" "3 \<le> h"
  shows "dims w h m \<Longrightarrow> unit_draws r \<Longrightarrow>
     \<exists>m' r'. place_lights n (int w) (int h) m r = Some (m', r') \<and> dims w h m' \<and> unit_draws r'"
proof (induction n arbitrary: m r)
  case 0
  then show ?case by simp
next
  case (Suc n)
  let ?lx = "randInt r 2 (int w - 3)" and ?ly = "randInt (rest r) 2 (int h - 3)"
  note u1 = unit_draws_rest[OF Suc.prems(2)]
  note u2 = unit_draws_rest[OF u1]
  have "0 \<le> ?lx \<and> ?lx < int w" by (rule light_coord[OF Suc.prems(2)]) (use assms in simp)
  moreover have "0 \<le> ?ly \<and> ?ly < int h" by (rule light_coord[OF u1]) (use assms in simp)
  ultimately obtain c where c: "cell_at m ?lx ?ly = Some c"
    using dims_cell_at[OF Suc.prems(1), of ?lx ?ly] by auto
  show ?case
  proof (cases "t c = FLOOR")
    case False
    then show ?thesis using Suc.IH[OF Suc.prems(1) u2] c by (simp add: Let_def)
  next
    case True
    from glow_cells[OF dims_rect[OF Suc.prems(1)], of ?lx ?ly light_offsets] obtain m1 where
      g: "glow m ?lx ?ly light_offsets = Some m1" by blast
    have d1: "dims w h m1" by (rule glow_dims[OF Suc.prems(1) g])
    show ?thesis using Suc.IH[OF d1 u2] c True g by (simp add: Let_def)
  qed
qed

lemma start_cell:
  assumes "3 \<le> n"
  shows "odd ((int n div 2) OR 1) \<and> 0 \<le> (int n div 2) OR 1 \<and> (int n div 2) OR 1 < int n"
  using assms unfolding or_one_eq by (auto simp: of_bool_def)

lemma no_floor_empty: "\<not> floor_at (makeEmptyMap w h) x y"
  by (auto simp: floor_at_def makeEmptyMap_def cell_at_def empty_cell_def split: option.splits)

lemma generateLayout_props:
  assumes "3 \<le> w" "3 \<le> h" "unit_draws r"
  shows "\<exists>m r'. generateLayout w h r = Some (m, r') \<and> dims w h m \<and> unit_draws r'
           \<and> connected m
           \<and> (\<forall>x y. odd x \<and> odd y \<and> inBounds m x y \<longrightarrow> floor_at m x y)"
proof -
  let ?sx = "(int w div 2) OR 1" and ?sy = "(int h div 2) OR 1"
  let ?e = "makeEmptyMap w h"
  let ?m0 = "carve ?e ?sx ?sy"
  note sx = start_cell[OF assms(1)] and sy = start_cell[OF assms(2)]
  have de: "dims w h ?e" by (rule dims_makeEmptyMap)
  have d0: "dims w h ?m0" by (rule dims_carve[OF de])
  have sb: "inBounds ?e ?sx ?sy" unfolding dims_inBounds[OF de] using sx sy by simp
  have f0: "\<And>x y. floor_at ?m0 x y \<longleftrightarrow> x = ?sx \<and> y = ?sy"
    unfolding floor_at_carve[OF de] using sb no_floor_empty by simp
  have inv0: "maze_inv w h (?sx, ?sy) ?m0 [(?sx, ?sy)]"
    unfolding maze_inv_def using d0 sx sy
    by (auto simp: f0 intro!: joined_refl)
  from maze_loop_inv[OF inv0 assms(3)] obtain m1 r1 where
    mz: "maze_loop ?m0 [(?sx, ?sy)] r = Some (m1, r1)"
    and inv1: "maze_inv w h (?sx, ?sy) m1 []" and u1: "unit_draws r1" by blast
  have d1: "dims w h m1" using inv1 by (simp add: maze_inv_def)
  text \<open>The start cell stays Floor.\<close>
  let ?P = "\<lambda>m. dims w h m \<and> floor_at m ?sx ?sy"
  have keep: "\<And>m x y. ?P m \<Longrightarrow> ?P (carve m x y)"
    using floor_at_carve dims_carve by blast
  have p0: "?P ?m0" using d0 f0 by simp
  have "?P m1" by (rule maze_loop_keeps[of ?P, OF keep p0 mz])
  then have s1: "floor_at m1 ?sx ?sy" by simp
  have nodes1: "\<And>x y. odd x \<Longrightarrow> odd y \<Longrightarrow> inBounds m1 x y \<Longrightarrow> floor_at m1 x y"
    using nodes_floor[OF inv1 s1] sx sy by blast
  have rinv1: "room_inv w h (?sx, ?sy) m1"
    unfolding room_inv_def using inv1 nodes1 by (auto simp: maze_inv_def)
  obtain m2 r2 where ro: "punch_rooms ((w * h) div 400) (int w) (int h) m1 r1 = (m2, r2)"
    by (cases "punch_rooms ((w * h) div 400) (int w) (int h) m1 r1")
  from punch_rooms_inv[OF assms(1,2) rinv1 u1 ro] have rinv2: "room_inv w h (?sx, ?sy) m2"
    and u2: "unit_draws r2" by blast+
  have d2: "dims w h m2" using rinv2 by (simp add: room_inv_def)
  from place_lights_total[OF assms(1,2) d2 u2, of "(w * h) div 200"] obtain m3 r3 where
    li: "place_lights ((w * h) div 200) (int w) (int h) m2 r2 = Some (m3, r3)"
    and d3: "dims w h m3" and u3: "unit_draws r3" by blast
  have gen: "generateLayout w h r = Some (m3, r3)"
    using mz ro li by (simp add: generateLayout_def Let_def)
  text \<open>The lights leave the tiles as they are.\<close>
  from generateLayout_parts[OF gen] obtain m2' r2' where
    li': "place_lights ((w * h) div 200) (int w) (int h) m2' r2' = Some (m3, r3)"
    and d2': "dims w h m2'" and k2': "dark m2'"
    and same: "m2' = m2"
    using mz ro by (metis option.inject prod.inject)
  have nn: "\<forall>x y c. cell_at m2 x y = Some c \<longrightarrow> 0 \<le> light c"
    using k2' same by (simp add: dark_def)
  from place_lights_cells[OF dims_rect[OF d2] nn li]
  have cells: "\<And>x y. map_option t (cell_at m3 x y) = map_option t (cell_at m2 x y)"
    by (simp split: option.splits)
  have fl: "\<And>x y. floor_at m3 x y \<longleftrightarrow> floor_at m2 x y"
    unfolding floor_at_cell[OF dims_rect[OF d3]] floor_at_cell[OF dims_rect[OF d2]] cells by simp
  have ib: "\<And>x y. inBounds m3 x y \<longleftrightarrow> inBounds m2 x y"
    unfolding dims_inBounds[OF d3] dims_inBounds[OF d2] by simp
  have "connected m3"
  proof (rule connected_via[where s = "(?sx, ?sy)"])
    fix a assume "floor_at m3 (fst a) (snd a)"
    then have "joined m2 a (?sx, ?sy)" using rinv2 unfolding fl room_inv_def by blast
    then show "joined m3 a (?sx, ?sy)" by (rule joined_mono[rotated]) (simp add: fl)
  qed
  moreover have "\<forall>x y. odd x \<and> odd y \<and> inBounds m3 x y \<longrightarrow> floor_at m3 x y"
    unfolding fl ib using rinv2 by (simp add: room_inv_def)
  ultimately show ?thesis using gen d3 u3 by blast
qed

section \<open>A map of one row\<close>

lemma shuffle_from_after: "snd (shuffle_from k a r) = after k r"
proof (induction k arbitrary: a r)
  case 0
  then show ?case by (simp add: after_0)
next
  case (Suc k)
  then show ?case by (simp add: Let_def after_rest)
qed

lemma unit_draws_rng_rooms: "unit_draws rng_rooms"
  by (simp add: unit_draws_def rng_rooms_def)

lemma maze_one_row:
  "maze_loop (carve (makeEmptyMap 800 1) 401 1) [(401, 1)] rng_rooms
     = Some (makeEmptyMap 800 1, after 3 rng_rooms)"
proof -
  let ?e = "makeEmptyMap 800 1"
  have de: "dims 800 1 ?e" by (rule dims_makeEmptyMap)
  have c: "carve ?e 401 1 = ?e" by (simp add: carve_def cell_at_def makeEmptyMap_def)
  obtain order r1 where sh: "shuffle rng_rooms maze_dirs = (order, r1)"
    by (cases "shuffle rng_rooms maze_dirs")
  have "length maze_dirs - 1 = 3" by (simp add: maze_dirs_def)
  then have "snd (shuffle rng_rooms maze_dirs) = after 3 rng_rooms"
    unfolding shuffle_def by (simp only: shuffle_from_after)
  then have r1: "r1 = after 3 rng_rooms" using sh by simp
  have so: "set order = set maze_dirs"
    using shuffle_set[OF unit_draws_rng_rooms, of maze_dirs] sh by simp
  have out: "\<And>dx dy. (dx, dy) \<in> set order \<Longrightarrow> \<not> inBounds ?e (401 + dx) (1 + dy)"
    unfolding so dims_inBounds[OF de] by (auto simp: maze_dirs_def)
  from try_dirs_cases[OF dims_rect[OF de], of 401 1 order] out
  have "try_dirs ?e 401 1 order = Blocked" by blast
  then show ?thesis unfolding c using sh r1 by (simp add: maze_loop.simps)
qed

lemma rooms_one_row:
  "punch_rooms 2 800 1 (makeEmptyMap 800 1) (after 3 rng_rooms)
     = (carve_rect (carve_rect (makeEmptyMap 800 1) 1 (-3) 7 6) 396 (-3) 7 6, rng_half)"
proof -
  have a3: "after 3 rng_rooms = (\<lambda>i. if i = 2 then 0 else 1 / 2)"
    by (auto simp: after_def rng_rooms_def fun_eq_iff)
  have e: "(\<lambda>n. 1 / 2) = rng_half"
    by (simp add: rng_half_def)
  have two: "(2::nat) = Suc (Suc 0)" by simp
  show ?thesis unfolding a3
    by (subst two) (simp add: Let_def randInt_def draw_def rest_def e)
qed

lemma floors_one_row:
  "floor_at (carve_rect (carve_rect (makeEmptyMap 800 1) 1 (-3) 7 6) 396 (-3) 7 6) x y
     \<longleftrightarrow> y = 0 \<and> (1 \<le> x \<and> x \<le> 7 \<or> 396 \<le> x \<and> x \<le> 402)"
proof -
  let ?e = "makeEmptyMap 800 1"
  have de: "dims 800 1 ?e" by (rule dims_makeEmptyMap)
  from carve_rect_floor[OF de, of 1 "-3" 7 6] have d1: "dims 800 1 (carve_rect ?e 1 (-3) 7 6)"
    and f1: "\<And>x y. floor_at (carve_rect ?e 1 (-3) 7 6) x y \<longleftrightarrow>
         floor_at ?e x y \<or> (1 \<le> x \<and> x \<le> 1 + 7 - 1 \<and> -3 \<le> y \<and> y \<le> -3 + 6 - 1 \<and> inBounds ?e x y)"
    by blast+
  from carve_rect_floor[OF d1, of 396 "-3" 7 6]
  have f2: "\<And>x y. floor_at (carve_rect (carve_rect ?e 1 (-3) 7 6) 396 (-3) 7 6) x y \<longleftrightarrow>
         floor_at (carve_rect ?e 1 (-3) 7 6) x y
         \<or> (396 \<le> x \<and> x \<le> 396 + 7 - 1 \<and> -3 \<le> y \<and> y \<le> -3 + 6 - 1
             \<and> inBounds (carve_rect ?e 1 (-3) 7 6) x y)"
    by blast
  show ?thesis
    unfolding f2 f1 dims_inBounds[OF d1] dims_inBounds[OF de] using no_floor_empty[of 800 1 x y]
    by auto
qed

lemma lights_half:
  "dims 800 1 m \<Longrightarrow> \<exists>m'. place_lights n 800 1 m rng_half = Some (m', rng_half)"
proof (induction n arbitrary: m)
  case 0
  then show ?case by simp
next
  case (Suc n)
  have lx: "randInt rng_half 2 797 = 400" by (simp add: randInt_def draw_rng_half)
  have ly: "randInt rng_half 2 (-2) = 0" by (simp add: randInt_def draw_rng_half)
  obtain c where c: "cell_at m 400 0 = Some c"
    using dims_cell_at[OF Suc.prems, of 400 0] by auto
  show ?case
  proof (cases "t c = FLOOR")
    case False
    then show ?thesis using Suc.IH[OF Suc.prems] c
      by (simp add: Let_def lx ly rest_rng_half)
  next
    case True
    from glow_cells[OF dims_rect[OF Suc.prems], of 400 0 light_offsets] obtain m1 where
      g: "glow m 400 0 light_offsets = Some m1" by blast
    have d1: "dims 800 1 m1" by (rule glow_dims[OF Suc.prems g])
    show ?thesis using Suc.IH[OF d1] c True g
      by (simp add: Let_def lx ly rest_rng_half)
  qed
qed

lemma gen_one_row:
  "\<exists>m. generateLayout 800 1 rng_rooms = Some (m, rng_half)
     \<and> (\<forall>x y. floor_at m x y \<longleftrightarrow> y = 0 \<and> (1 \<le> x \<and> x \<le> 7 \<or> 396 \<le> x \<and> x \<le> 402))"
proof -
  let ?e = "makeEmptyMap 800 1"
  let ?m2 = "carve_rect (carve_rect ?e 1 (-3) 7 6) 396 (-3) 7 6"
  let ?P = "\<lambda>m. dims 800 1 m \<and> dark m"
  have keep: "\<And>m x y. ?P m \<Longrightarrow> ?P (carve m x y)" by (simp add: dims_carve dark_carve)
  have pe: "?P ?e" by (simp add: dims_makeEmptyMap dark_makeEmptyMap)
  have p1: "?P (carve_rect ?e 1 (-3) 7 6)" by (rule carve_rect_keeps[of ?P, OF keep pe])
  have p2: "?P ?m2" by (rule carve_rect_keeps[of ?P, OF keep p1])
  then have d2: "dims 800 1 ?m2" and k2: "dark ?m2" by simp_all
  from lights_half[OF d2, of 4] obtain m3 where
    li: "place_lights 4 800 1 ?m2 rng_half = Some (m3, rng_half)" by blast
  have s: "(int 800 div 2) OR 1 = 401" "(int 1 div 2) OR 1 = 1" by (simp_all add: or_one_eq)
  have gen: "generateLayout 800 1 rng_rooms = Some (m3, rng_half)"
    unfolding generateLayout_def s
    using maze_one_row rooms_one_row li by (simp add: Let_def)
  have nn: "\<forall>x y c. cell_at ?m2 x y = Some c \<longrightarrow> 0 \<le> light c" using k2 by (simp add: dark_def)
  from place_lights_cells[OF dims_rect[OF d2] nn li] have r3: "rect m3"
    and cells: "\<And>x y. map_option t (cell_at m3 x y) = map_option t (cell_at ?m2 x y)"
    by (simp_all split: option.splits)
  have "\<And>x y. floor_at m3 x y \<longleftrightarrow> floor_at ?m2 x y"
    unfolding floor_at_cell[OF r3] floor_at_cell[OF dims_rect[OF d2]] cells by simp
  then show ?thesis using gen floors_one_row by auto
qed

lemma walk_left:
  assumes "\<And>x y. floor_at m x y \<Longrightarrow> x \<noteq> 8"
  shows "walk m p \<Longrightarrow> fst (hd p) \<le> 7 \<Longrightarrow> \<forall>a \<in> set p. fst a \<le> 7"
proof (induction p)
  case Nil
  then show ?case by simp
next
  case (Cons a p)
  show ?case
  proof (cases p)
    case Nil
    then show ?thesis using Cons.prems by simp
  next
    case (Cons b q)
    have w: "walk m (b # q)" and ad: "adjacent a b" using Cons.prems(1) Cons by simp_all
    have "floor_at m (fst b) (snd b)" by (rule walk_floor[OF w]) simp
    then have "fst b \<noteq> 8" by (rule assms)
    moreover have "\<bar>fst a - fst b\<bar> \<le> 1" using ad by (auto simp: adjacent_def)
    ultimately have "fst b \<le> 7" using Cons.prems(2) by auto
    then have "\<forall>c \<in> set p. fst c \<le> 7" using Cons.IH w Cons by simp
    then show ?thesis using Cons.prems(2) by simp
  qed
qed

text \<open>
  C5 as stated fails: for 800 columns and 1 row the backtracker carves nothing, two
  rooms are due, and on the stream \<open>rng_rooms\<close> they open the cells 1 to 7 and 396 to
  402 of the one row. The generator returns this map, and no path joins the two rooms.
\<close>

theorem rooms_apart_counterexample:
  "generateLayout 800 1 rng_rooms \<noteq> None
   \<and> floor_at (fst (the (generateLayout 800 1 rng_rooms))) 1 0
   \<and> floor_at (fst (the (generateLayout 800 1 rng_rooms))) 396 0
   \<and> \<not> connected (fst (the (generateLayout 800 1 rng_rooms)))"
proof -
  from gen_one_row obtain m where gen: "generateLayout 800 1 rng_rooms = Some (m, rng_half)"
    and fl: "\<And>x y. floor_at m x y \<longleftrightarrow> y = 0 \<and> (1 \<le> x \<and> x \<le> 7 \<or> 396 \<le> x \<and> x \<le> 402)"
    by blast
  have f1: "floor_at m 1 0" and f2: "floor_at m 396 0" by (simp_all add: fl)
  have no8: "\<And>x y. floor_at m x y \<Longrightarrow> x \<noteq> 8" unfolding fl by auto
  have "\<not> connected m"
  proof
    assume "connected m"
    then have "\<forall>a b. floor_at m (fst a) (snd a) \<and> floor_at m (fst b) (snd b) \<longrightarrow>
        (\<exists>p. walk m p \<and> hd p = a \<and> last p = b)"
      unfolding connected_def .
    from this[THEN spec, of "(1, 0)", THEN spec, of "(396, 0)"]
    obtain p where p: "walk m p" "hd p = (1, 0)" "last p = (396, 0)"
      using f1 f2 by auto
    have "\<forall>a \<in> set p. fst a \<le> 7"
    proof (rule walk_left[of m p])
      show "\<And>x y. floor_at m x y \<Longrightarrow> x \<noteq> 8" by (rule no8)
      show "walk m p" by (rule p(1))
      show "fst (hd p) \<le> 7" by (simp add: p(2))
    qed
    moreover have "last p \<in> set p" using walk_nonempty[OF p(1)] by simp
    ultimately have "fst (last p) \<le> 7" by blast
    then show False by (simp add: p(3))
  qed
  then show ?thesis using gen f1 f2 by simp
qed

text \<open>
  C5, amended: for a map of at least 3 columns and 3 rows and draws in [0,1), the
  generator returns a map, and in it every Floor cell is joined to every other by a path
  of axis-aligned steps over Floor cells.
\<close>

theorem maze_connected:
  assumes "3 \<le> w" and "3 \<le> h" and "unit_draws r"
  shows "\<exists>m r'. generateLayout w h r = Some (m, r') \<and> connected m"
  using generateLayout_props[OF assms] by blast

theorem maze_connected_witness:
  "(3::nat) \<le> 46 \<and> (3::nat) \<le> 30 \<and> unit_draws rng_half
   \<and> (\<exists>m r'. generateLayout 46 30 rng_half = Some (m, r') \<and> connected m)"
proof -
  have a: "(3::nat) \<le> 46" "(3::nat) \<le> 30" by simp_all
  have u: "unit_draws rng_half" by (simp add: unit_draws_def rng_half_def)
  show ?thesis using maze_connected[OF a u] a u by blast
qed

section \<open>Runs of the turn engine\<close>

lemma flicker_row_length: "length (fst (flicker_row cs r)) = length cs"
proof (induction cs arbitrary: r)
  case Nil
  then show ?case by simp
next
  case (Cons c cs)
  show ?case using Cons.IH[of r] Cons.IH[of "rest r"]
    by (cases "flicker_row cs r"; cases "flicker_row cs (rest r)") simp
qed

lemma flicker_dims: "dims w h m \<Longrightarrow> dims w h (fst (flicker m r))"
proof (induction m arbitrary: r h)
  case Nil
  then show ?case by (simp add: dims_def)
next
  case (Cons row rows)
  obtain row' r1 where a: "flicker_row row r = (row', r1)" by (cases "flicker_row row r")
  obtain rows' r2 where b: "flicker rows r1 = (rows', r2)" by (cases "flicker rows r1")
  have l: "length row' = length row" using flicker_row_length[of row r] a by simp
  have "dims w (length rows) rows" using Cons.prems by (simp add: dims_def)
  from Cons.IH[OF this, of r1] have "dims w (length rows) rows'" using b by simp
  then show ?case using Cons.prems a b l by (auto simp: dims_def)
qed

text \<open>
  On a map of the game's size \<open>step\<close> returns, keeps the size of the map, and keeps the
  sanity within 0 and 100.
\<close>

lemma step_total:
  assumes "dims W H (smap s)" "0 \<le> sanity s" "sanity s \<le> 100"
  shows "\<exists>s' r'. step dx dy r s = Some (s', r') \<and> dims W H (smap s')
           \<and> 0 \<le> sanity s' \<and> sanity s' \<le> 100"
proof (cases "gameOver s = None")
  case False
  then show ?thesis using assms by (simp add: step_def)
next
  case True
  let ?nx = "clamp (plx (player s) + dx) 0 (int W - 1)"
  let ?ny = "clamp (ply (player s) + dy) 0 (int H - 1)"
  have b: "0 \<le> ?nx" "?nx < int W" "0 \<le> ?ny" "?ny < int H"
    by (auto simp: clamp_def W_def H_def)
  from dims_cell_at[OF assms(1) b] obtain c where c: "cell_at (smap s) ?nx ?ny = Some c" by blast
  from advance_hounds_total[OF dims_rect[OF assms(1)], of ?nx ?ny "hounds s" r]
  obtain nextH r' where a: "advance_hounds (smap s) ?nx ?ny (hounds s) r = Some (nextH, r')"
    by blast
  have d: "\<And>c'. dims W H (set_cell (smap s) ?nx ?ny c')" by (rule dims_set_cell[OF assms(1)])
  have cl: "\<And>k. 0 \<le> clamp (sanity s - k) 0 100 \<and> clamp (sanity s - k) 0 100 \<le> 100"
    by (simp add: clamp_def)
  show ?thesis
  proof (cases "t c = FLOOR")
    case False
    then show ?thesis using True c assms by (simp add: step_def Let_def)
  next
    case fl: True
    show ?thesis
    proof (cases "exit c")
      case True
      then show ?thesis using \<open>gameOver s = None\<close> c fl d assms(2,3)
        by (simp add: step_def Let_def)
    next
      case False
      then show ?thesis using \<open>gameOver s = None\<close> c fl d a cl
        by (simp add: step_def Let_def)
    qed
  qed
qed

lemma drink_keeps:
  assumes "dims W H (smap s)" "0 \<le> sanity s" "sanity s \<le> 100"
  shows "dims W H (smap (drink s)) \<and> 0 \<le> sanity (drink s) \<and> sanity (drink s) \<le> 100"
  using assms by (simp add: drink_def clamp_def)

lemma run_total:
  assumes "dims W H (smap s)" "0 \<le> sanity s" "sanity s \<le> 100"
  shows "\<exists>s' r'. run acts r s = Some (s', r') \<and> 0 \<le> sanity s' \<and> sanity s' \<le> 100"
  using assms
proof (induction acts arbitrary: r s)
  case Nil
  then show ?case by simp
next
  case (Cons a acts)
  show ?case
  proof (cases a)
    case Drink
    from drink_keeps[OF Cons.prems] show ?thesis using Cons.IH[of "drink s" r] Drink by simp
  next
    case (Move dx dy)
    from step_total[OF Cons.prems, of dx dy r] obtain s1 r1 where
      s1: "step dx dy r s = Some (s1, r1)" "dims W H (smap s1)" "0 \<le> sanity s1" "sanity s1 \<le> 100"
      by blast
    show ?thesis
    proof (cases "turn s1 \<noteq> turn s")
      case False
      then show ?thesis using Cons.IH[OF s1(2,3,4), of r1] s1(1) Move by simp
    next
      case True
      obtain m' r2 where f: "flicker (smap s1) r1 = (m', r2)" by (cases "flicker (smap s1) r1")
      have "dims W H m'" using flicker_dims[OF s1(2), of r1] f by simp
      then have "dims W H (smap (s1\<lparr>smap := m'\<rparr>))" by simp
      from Cons.IH[OF this, of r2] s1(3,4) show ?thesis using s1(1) Move True f by simp
    qed
  qed
qed

section \<open>The start of a session\<close>

lemma pick_total:
  assumes "unit_draws r" "fl \<noteq> []"
  shows "\<exists>c fl'. pick fl r = Some (c, fl', rest r)"
  using draw_index[OF assms(1), of "length fl"] assms(2) by (simp add: pick_def Let_def)

lemma find_exit_total:
  "unit_draws r \<Longrightarrow> floors \<noteq> [] \<Longrightarrow>
     \<exists>best r'. find_exit n floors px py best0 r = Some (best, r') \<and> unit_draws r'"
proof (induction n arbitrary: r best0)
  case 0
  then show ?case by (cases best0) simp
next
  case (Suc n)
  obtain ex ey bd where b: "best0 = (ex, ey, bd)" by (cases best0)
  have k: "nat \<lfloor>draw r * real (length floors)\<rfloor> < length floors"
    by (rule draw_index[OF Suc.prems(1)]) (use Suc.prems(2) in simp)
  obtain x y where xy: "floors ! nat \<lfloor>draw r * real (length floors)\<rfloor> = (x, y)"
    by (cases "floors ! nat \<lfloor>draw r * real (length floors)\<rfloor>")
  show ?case
    using Suc.IH[OF unit_draws_rest[OF Suc.prems(1)] Suc.prems(2)] k xy
    unfolding b by (simp add: Let_def)
qed

lemma dims_cell_at_iff:
  assumes "dims w h m"
  shows "cell_at m x y \<noteq> None \<longleftrightarrow> 0 \<le> x \<and> x < int w \<and> 0 \<le> y \<and> y < int h"
  using rect_inBounds[OF dims_rect[OF assms], of x y] dims_inBounds[OF assms, of x y] by simp

lemma place_items_total:
  assumes "dims w h m"
  shows "unit_draws r \<Longrightarrow> n \<le> length fl \<Longrightarrow> \<forall>(x, y) \<in> set fl. cell_at m x y \<noteq> None \<Longrightarrow>
     dims w h m \<Longrightarrow>
     \<exists>m' fl' r'. place_items n m fl r = Some (m', fl', r') \<and> unit_draws r'
        \<and> length fl' = length fl - n"
proof (induction n arbitrary: m fl r)
  case 0
  then show ?case by simp
next
  case (Suc n)
  from Suc.prems(2) have ne: "fl \<noteq> []" by auto
  from pick_total[OF Suc.prems(1) ne] obtain c fl1 where p: "pick fl r = Some (c, fl1, rest r)"
    by blast
  obtain x y where c: "c = (x, y)" by (cases c)
  note pp = pick_props[OF p]
  from pp(1) Suc.prems(3) obtain c0 where c0: "cell_at m x y = Some c0" unfolding c by auto
  let ?m1 = "if \<not> exit c0 then set_cell m x y (c0\<lparr>item := Some Almond\<rparr>) else m"
  have d1: "dims w h ?m1" using Suc.prems(4) by (simp add: dims_set_cell)
  have cells: "\<forall>(x, y) \<in> set fl1. cell_at ?m1 x y \<noteq> None"
    using Suc.prems(3) pp(4) unfolding dims_cell_at_iff[OF d1] dims_cell_at_iff[OF Suc.prems(4)]
    by auto
  have len: "n \<le> length fl1" using pp(3) Suc.prems(2) by simp
  from Suc.IH[OF unit_draws_rest[OF Suc.prems(1)] len cells d1] obtain m' fl' r' where
    "place_items n ?m1 fl1 (rest r) = Some (m', fl', r')" "unit_draws r'"
    "length fl' = length fl1 - n" by blast
  then show ?case using p c c0 pp(3) by simp
qed

lemma place_hounds_total:
  "unit_draws r \<Longrightarrow> n \<le> length fl \<Longrightarrow>
     \<exists>hs r'. place_hounds n fl r = Some (hs, r') \<and> unit_draws r'"
proof (induction n arbitrary: fl r)
  case 0
  then show ?case by simp
next
  case (Suc n)
  from Suc.prems(2) have ne: "fl \<noteq> []" by auto
  from pick_total[OF Suc.prems(1) ne] obtain c fl1 where p: "pick fl r = Some (c, fl1, rest r)"
    by blast
  obtain x y where c: "c = (x, y)" by (cases c)
  have len: "n \<le> length fl1" using pick_props(3)[OF p] Suc.prems(2) by simp
  note u2 = unit_draws_rest[OF unit_draws_rest[OF Suc.prems(1)]]
  from Suc.IH[OF u2 len] obtain hs r' where
    "place_hounds n fl1 (rest (rest r)) = Some (hs, r')" "unit_draws r'" by blast
  then show ?case using p c by simp
qed

lemma floor_list_total:
  assumes "dims w h m" "0 < h"
  shows "\<exists>fl. floor_list m = Some fl
           \<and> (\<forall>x y. (x, y) \<in> set fl \<longleftrightarrow> floor_at m x y)"
proof -
  have ne: "m \<noteq> []" using assms by (auto simp: dims_def)
  then have "m ! 0 \<in> set m" by (cases m) auto
  then have w: "length (m ! 0) = w" using assms(1) by (simp add: dims_def)
  have rows: "\<not> (\<exists>row \<in> set m. length row < w)" using assms(1) by (auto simp: dims_def)
  let ?fl = "concat (map (\<lambda>y. map (\<lambda>x. (int x, int y))
                                       (filter (\<lambda>x. t (m ! y ! x) = FLOOR) [0..<w]))
                                  [0..<length m])"
  have fl: "floor_list m = Some ?fl" using ne w rows by (simp add: floor_list_def Let_def)
  have r: "rect m" by (rule dims_rect[OF assms(1)])
  have len: "length m = h" using assms(1) by (simp add: dims_def)
  have "\<And>x y. (x, y) \<in> set ?fl \<longleftrightarrow> floor_at m x y"
  proof -
    fix x y
    have "floor_at m x y \<longleftrightarrow> (0 \<le> x \<and> x < int w \<and> 0 \<le> y \<and> y < int h)
        \<and> t (m ! nat y ! nat x) = FLOOR"
    proof (cases "0 \<le> x \<and> x < int w \<and> 0 \<le> y \<and> y < int h")
      case True
      then obtain c where c: "cell_at m x y = Some c" using dims_cell_at[OF assms(1)] by blast
      then have "c = m ! nat y ! nat x" by (auto simp: cell_at_def split: if_splits)
      then show ?thesis using True c unfolding floor_at_cell[OF r] by simp
    next
      case False
      then have "\<not> inBounds m x y" unfolding dims_inBounds[OF assms(1)] by simp
      then have "\<not> floor_at m x y" by (simp add: floor_at_def)
      then show ?thesis using False by blast
    qed
    then show "(x, y) \<in> set ?fl \<longleftrightarrow> floor_at m x y"
      unfolding cells_member[where P = "\<lambda>c. t c = FLOOR"] len by auto
  qed
  then show ?thesis using fl by blast
qed

lemma placeThings_total:
  assumes d: "dims w h m" and u: "unit_draws r"
    and f: "floor_list m = Some fl0" and n: "7 \<le> length fl0"
  shows "\<exists>m' px py hs r'. placeThings m r = Some (m', px, py, hs, r') \<and> dims w h m'
           \<and> cell_at m' px py \<noteq> None \<and> unit_draws r'"
proof -
  have ne: "fl0 \<noteq> []" using n by auto
  from pick_total[OF u ne] obtain c pool where p: "pick fl0 r = Some (c, pool, rest r)" by blast
  obtain px py where c: "c = (px, py)" by (cases c)
  note pp = pick_props[OF p]
  have lp: "6 \<le> length pool" using pp(3) n by simp
  then have pne: "pool \<noteq> []" by auto
  note u1 = unit_draws_rest[OF u]
  from find_exit_total[OF u1 pne, of 200 px py "(px, py, -1)"] obtain best r2 where
    e: "find_exit 200 pool px py (px, py, -1) (rest r) = Some (best, r2)" and u2: "unit_draws r2"
    by blast
  obtain ex ey bd where b: "best = (ex, ey, bd)" by (cases best)
  let ?idx = "\<lambda>i. nat \<lfloor>rest r i * real (length pool)\<rfloor>"
  let ?far = "\<lambda>i. manhattan px py (fst (pool ! ?idx i)) (snd (pool ! ?idx i))"
  from find_exit_spec[OF e[unfolded b]] have ix: "\<forall>i<200. ?idx i < length pool"
    and alt: "(ex, ey, bd) = (px, py, -1) \<and> (\<forall>i<200. ?far i \<le> -1)
      \<or> (\<exists>g<200. (ex, ey) = pool ! ?idx g \<and> bd = ?far g \<and> -1 < bd
            \<and> (\<forall>i<200. ?far i \<le> bd) \<and> (\<forall>i<g. ?far i < bd))"
    by simp_all
  have "0 \<le> ?far 0" by (simp add: manhattan_def)
  then have "\<not> (\<forall>i<200. ?far i \<le> -1)" by (intro notI) (drule spec[of _ 0], simp)
  with alt obtain g where g: "g < 200" "(ex, ey) = pool ! ?idx g" by blast
  have xin: "(ex, ey) \<in> set pool" using g ix by simp
  have cells0: "\<And>x y. (x, y) \<in> set fl0 \<Longrightarrow> cell_at m x y \<noteq> None"
    using floor_list_cells[OF f] by fastforce
  from cells0[of ex ey] xin pp(4) obtain ce where ce: "cell_at m ex ey = Some ce" by auto
  let ?m1 = "set_cell m ex ey (ce\<lparr>exit := True\<rparr>)"
  have d1: "dims w h ?m1" by (rule dims_set_cell[OF d])
  have cells1: "\<forall>(x, y) \<in> set pool. cell_at ?m1 x y \<noteq> None"
    using cells0 pp(4) unfolding dims_cell_at_iff[OF d1] dims_cell_at_iff[OF d] by auto
  let ?aw = "max 5 (length pool div 120)"
  have aw: "?aw \<le> length pool" using lp by auto
  from place_items_total[OF d1 u2 aw cells1 d1] obtain m2 pool2 r3 where
    i: "place_items ?aw ?m1 pool r2 = Some (m2, pool2, r3)" and u3: "unit_draws r3"
    and l2: "length pool2 = length pool - ?aw" by blast
  have "1 \<le> length pool2" unfolding l2 using lp by (auto simp: max_def)
  then have hc: "max 1 (length pool2 div 800) \<le> length pool2" by auto
  from place_hounds_total[OF u3 hc] obtain hs r4 where
    h: "place_hounds (max 1 (length pool2 div 800)) pool2 r3 = Some (hs, r4)"
    and u4: "unit_draws r4" by blast
  have d2: "dims w h m2" by (rule place_items_dims[OF i d1])
  have pt: "placeThings m r = Some (m2, px, py, hs, r4)"
    using f p c e b ce i h
    by (simp add: placeThings_def del: find_exit.simps place_items.simps place_hounds.simps)
  have "cell_at m2 px py \<noteq> None"
    using cells0[of px py] pp(1) unfolding c dims_cell_at_iff[OF d2] dims_cell_at_iff[OF d]
    by simp
  then show ?thesis using pt d2 u4 by blast
qed

lemma new_session_total:
  assumes "unit_draws r"
  shows "\<exists>s0 r1. new_session r = Some (s0, r1) \<and> dims W H (smap s0) \<and> sanity s0 = 100"
proof -
  have wh: "3 \<le> W" "3 \<le> H" by (simp_all add: W_def H_def)
  from generateLayout_props[OF wh assms] obtain m r1 where
    gen: "generateLayout W H r = Some (m, r1)" and d: "dims W H m" and u1: "unit_draws r1"
    and nodes: "\<And>x y. odd x \<Longrightarrow> odd y \<Longrightarrow> inBounds m x y \<Longrightarrow> floor_at m x y" by blast
  from floor_list_total[OF d] obtain fl0 where f: "floor_list m = Some fl0"
    and fl: "\<And>x y. (x, y) \<in> set fl0 \<longleftrightarrow> floor_at m x y" by (auto simp: H_def)
  let ?A = "{(1, 1), (3, 1), (5, 1), (7, 1), (9, 1), (11, 1), (13, 1)} :: (int \<times> int) set"
  have "?A \<subseteq> set fl0"
    unfolding subset_iff using nodes fl
    by (auto simp: dims_inBounds[OF d] W_def H_def)
  then have "card ?A \<le> card (set fl0)" by (intro card_mono) simp_all
  moreover have "card ?A = 7" by simp
  ultimately have n: "7 \<le> length fl0" using card_length[of fl0] by linarith
  from placeThings_total[OF d u1 f n] obtain m' px py hs r2 where
    pt: "placeThings m r1 = Some (m', px, py, hs, r2)" and d': "dims W H m'"
    and c: "cell_at m' px py \<noteq> None" by blast
  from c obtain c0 where c0: "cell_at m' px py = Some c0" by auto
  have "dims W H (set_cell m' px py (c0\<lparr>seen := True\<rparr>))" by (rule dims_set_cell[OF d'])
  then show ?thesis using gen pt c0 by (simp add: new_session_def)
qed

lemma word32_unit: "0 \<le> real (unat (x :: 32 word)) / 4294967296 \<and> real (unat x) / 4294967296 < 1"
proof -
  have "unat x < 2 ^ 32" using unsigned_less[of x, where 'a = nat] by simp
  then have "unat x < 4294967296" by simp
  then have "real (unat x) < real 4294967296" by (rule iffD2[OF of_nat_less_iff])
  then have "real (unat x) < 4294967296" by (simp del: of_nat_unat)
  then show ?thesis by (simp del: of_nat_unat)
qed

lemma unit_draws_mulberry32: "unit_draws (mulberry32 seed)"
  unfolding unit_draws_def mulberry32_def mulberry32_out_def Let_def
  using word32_unit by blast

lemma mulberry32_42: "mulberry32 42 0 = 2581720956 / 4294967296"
  by (simp add: mulberry32_def mulberry32_out_def Let_def)

section \<open>Sanity stays within its bounds\<close>

lemma session_sanity:
  assumes "unit_draws r0"
  shows "\<exists>s0 r1. new_session r0 = Some (s0, r1)
           \<and> (\<forall>acts rm. \<exists>s r'. run acts rm s0 = Some (s, r') \<and> 0 \<le> sanity s \<and> sanity s \<le> 100)"
proof -
  from new_session_total[OF assms] obtain s0 r1
    where s0: "new_session r0 = Some (s0, r1)" "dims W H (smap s0)" "sanity s0 = 100"
    by blast
  have "\<exists>s r'. run acts rm s0 = Some (s, r') \<and> 0 \<le> sanity s \<and> sanity s \<le> 100" for acts rm
    using run_total[of s0 acts rm] s0 by simp
  with s0(1) show ?thesis by blast
qed

text \<open>
  C3: for every seed, the session it starts exists, and every finite sequence of moves
  (\<open>step\<close>, with any offsets) and drinks (\<open>drink\<close>), on any stream of \<open>Math.random\<close>
  draws, runs to a state whose sanity is an integer from 0 to 100. The sanity starts at
  100 and changes only by \<open>clamp (s - 1) 0 100\<close>, \<open>clamp (s - 3) 0 100\<close> and
  \<open>clamp (s + 35) 0 100\<close>, so it stays a whole number. The same holds for the session
  of any stream of draws in the unit interval (\<open>session_sanity\<close>).
\<close>

theorem sanity_bounds:
  "\<exists>s0 r1. new_session (mulberry32 seed) = Some (s0, r1)
     \<and> (\<forall>acts rm. \<exists>s r'. run acts rm s0 = Some (s, r') \<and> 0 \<le> sanity s \<and> sanity s \<le> 100)"
  by (rule session_sanity[OF unit_draws_mulberry32])

theorem sanity_bounds_witness:
  "\<exists>s0 r1. new_session (mulberry32 42) = Some (s0, r1)
     \<and> (\<exists>s r'. run [Move 1 0, Drink, Move 0 (- 1), Move 7 7] rng_half s0 = Some (s, r')
            \<and> 0 \<le> sanity s \<and> sanity s \<le> 100)"
  using sanity_bounds[of 42] by blast

section \<open>The enemy loop\<close>

lemma hound_turn_unit:
  assumes "unit_draws r" "hound_turn m tx ty h r = Some (h', r')"
  shows "unit_draws r'"
proof -
  note u = unit_draws_rest[OF assms(1)]
  have "r' = r \<or> r' = rest r \<or> r' = snd (shuffle r unit_dirs) \<or> r' = snd (shuffle (rest r) unit_dirs)"
    using assms(2)
    by (auto simp: hound_turn_def stepHound_def Let_def split: if_splits option.splits prod.splits)
  then show ?thesis
    using assms(1) u unit_draws_shuffle[OF assms(1), of unit_dirs] unit_draws_shuffle[OF u, of unit_dirs]
    by auto
qed

lemma advance_hounds_rounds:
  assumes "rect m"
  shows "unit_draws r \<Longrightarrow>
     \<exists>hs' rs. advance_hounds m tx ty hs r = Some (hs', rs ! length hs)
       \<and> length hs' = length hs \<and> length rs = length hs + 1 \<and> rs ! 0 = r
       \<and> (\<forall>i<length hs. unit_draws (rs ! i)
             \<and> hound_turn m tx ty (hs ! i) (rs ! i) = Some (hs' ! i, rs ! Suc i))"
proof (induction hs arbitrary: r)
  case Nil
  show ?case by (rule exI[of _ "[]"], rule exI[of _ "[r]"]) simp
next
  case (Cons h hs)
  from hound_turn_total[OF assms, of tx ty h r] obtain h' r1 where
    ht: "hound_turn m tx ty h r = Some (h', r1)" by blast
  have u1: "unit_draws r1" by (rule hound_turn_unit[OF Cons.prems ht])
  from Cons.IH[OF u1] obtain hs' rs where
    ah: "advance_hounds m tx ty hs r1 = Some (hs', rs ! length hs)"
    and l1: "length hs' = length hs" and l2: "length rs = length hs + 1" and r0: "rs ! 0 = r1"
    and each: "\<forall>i<length hs. unit_draws (rs ! i)
             \<and> hound_turn m tx ty (hs ! i) (rs ! i) = Some (hs' ! i, rs ! Suc i)"
    by blast
  have a: "advance_hounds m tx ty (h # hs) r = Some (h' # hs', (r # rs) ! length (h # hs))"
    using ht ah by simp
  have e: "\<forall>i<length (h # hs). unit_draws ((r # rs) ! i)
             \<and> hound_turn m tx ty ((h # hs) ! i) ((r # rs) ! i) = Some ((h' # hs') ! i, (r # rs) ! Suc i)"
  proof (intro allI impI)
    fix i assume i: "i < length (h # hs)"
    show "unit_draws ((r # rs) ! i)
             \<and> hound_turn m tx ty ((h # hs) ! i) ((r # rs) ! i) = Some ((h' # hs') ! i, (r # rs) ! Suc i)"
    proof (cases i)
      case 0
      then show ?thesis using Cons.prems ht r0 by simp
    next
      case (Suc j)
      then have "j < length hs" using i by simp
      then show ?thesis using each Suc by simp
    qed
  qed
  show ?case
    by (rule exI[of _ "h' # hs'"], rule exI[of _ "r # rs"]) (use a e l1 l2 in simp)
qed

lemma step_hounds:
  assumes "gameOver s = None"
    and "nx = clamp (plx (player s) + dx) 0 (int W - 1)"
    and "ny = clamp (ply (player s) + dy) 0 (int H - 1)"
    and "cell_at (smap s) nx ny = Some c"
    and "t c = FLOOR"
    and "\<not> exit c"
    and "advance_hounds (smap s) nx ny (hounds s) r = Some (hs', r')"
  shows "\<exists>s'. step dx dy r s = Some (s', r') \<and> hounds s' = hs'"
  using assms by (simp add: step_def Let_def)

lemma shuffle_half: "shuffle rng_half unit_dirs = ([(1, 0), (0, -1), (-1, 0), (0, 1)], rng_half)"
  by (simp add: shuffle_def unit_dirs_def eval_nat_numeral draw_rng_half rest_rng_half Let_def)

lemma advance_pack:
  "advance_hounds open_grid 6 5 (hounds pack_state) rng_half
     = Some ([\<lparr>hx = 20, hy = 20, cooldown = 1\<rparr>, \<lparr>hx = 30, hy = 20, cooldown = 0\<rparr>,
              \<lparr>hx = 8, hy = 5, cooldown = 0\<rparr>], rng_half)"
  by (simp add: pack_state_def hound_turn_def manhattan_def stepHound_def shuffle_half
      draw_rng_half rest_rng_half inBounds_open cell_open floor_cell_def)

text \<open>
  C8: a hound with a positive cooldown counts it down and stays. Otherwise it stays unless
  it is within distance 10 of the target or the draw is below 0.3; and when it moves it
  takes a unit step onto an in-bounds Floor cell that is nearest to the target among the
  in-bounds Floor cells one step away, the first such in the shuffled order, or stays
  when there is none. The enemy loop gives every hound of the list one such round, in the
  order of the list, each on the stream the round before left; and a step of the player
  onto a Floor cell that is not the exit runs this loop on the hounds of the state, on
  the map as it was before the step and with the player's new cell as the target.
\<close>

theorem pursuit_rule:
  assumes "rect m" and "unit_draws r"
  shows "(cooldown h > 0 \<longrightarrow>
            hound_turn m tx ty h r = Some (h\<lparr>cooldown := cooldown h - 1\<rparr>, r))
       \<and> (cooldown h \<le> 0 \<and> \<not> manhattan (hx h) (hy h) tx ty < 10 \<and> \<not> draw r < 3 / 10 \<longrightarrow>
            hound_turn m tx ty h r = Some (h, rest r))
       \<and> (cooldown h \<le> 0 \<and> (manhattan (hx h) (hy h) tx ty < 10 \<or> draw r < 3 / 10) \<longrightarrow>
            (\<exists>h' rs. rs = (if manhattan (hx h) (hy h) tx ty < 10 then r else rest r)
               \<and> hound_turn m tx ty h r = Some (h', snd (shuffle rs unit_dirs))
               \<and> cooldown h' = cooldown h
               \<and> (if \<exists>(dx, dy) \<in> set unit_dirs. floor_at m (hx h + dx) (hy h + dy)
                  then (\<exists>(dx, dy) \<in> set unit_dirs. hx h' = hx h + dx \<and> hy h' = hy h + dy
                        \<and> floor_at m (hx h') (hy h')
                        \<and> (\<forall>(ex, ey) \<in> set unit_dirs. floor_at m (hx h + ex) (hy h + ey) \<longrightarrow>
                              manhattan (hx h') (hy h') tx ty
                                \<le> manhattan (hx h + ex) (hy h + ey) tx ty)
                        \<and> (\<exists>ds. filter (\<lambda>(ex, ey). floor_at m (hx h + ex) (hy h + ey)
                                       \<and> manhattan (hx h + ex) (hy h + ey) tx ty
                                           = manhattan (hx h') (hy h') tx ty)
                                    (fst (shuffle rs unit_dirs)) = (dx, dy) # ds))
                  else h' = h)))
       \<and> (\<exists>hs' rs. advance_hounds m tx ty hs r = Some (hs', rs ! length hs)
             \<and> length hs' = length hs \<and> length rs = length hs + 1 \<and> rs ! 0 = r
             \<and> (\<forall>i<length hs. unit_draws (rs ! i)
                   \<and> hound_turn m tx ty (hs ! i) (rs ! i) = Some (hs' ! i, rs ! Suc i)))
       \<and> (gameOver s = None \<and> smap s = m \<and> hounds s = hs
            \<and> tx = clamp (plx (player s) + dx) 0 (int W - 1)
            \<and> ty = clamp (ply (player s) + dy) 0 (int H - 1)
            \<and> cell_at m tx ty = Some c \<and> t c = FLOOR \<and> \<not> exit c \<longrightarrow>
            (\<exists>s' hs' r'. advance_hounds m tx ty hs r = Some (hs', r')
               \<and> step dx dy r s = Some (s', r') \<and> hounds s' = hs'))"
proof -
  note u = unit_draws_rest[OF assms(2)]
  have one: "(cooldown h > 0 \<longrightarrow>
            hound_turn m tx ty h r = Some (h\<lparr>cooldown := cooldown h - 1\<rparr>, r))
       \<and> (cooldown h \<le> 0 \<and> \<not> manhattan (hx h) (hy h) tx ty < 10 \<and> \<not> draw r < 3 / 10 \<longrightarrow>
            hound_turn m tx ty h r = Some (h, rest r))
       \<and> (cooldown h \<le> 0 \<and> (manhattan (hx h) (hy h) tx ty < 10 \<or> draw r < 3 / 10) \<longrightarrow>
            (\<exists>h' rs. rs = (if manhattan (hx h) (hy h) tx ty < 10 then r else rest r)
               \<and> hound_turn m tx ty h r = Some (h', snd (shuffle rs unit_dirs))
               \<and> cooldown h' = cooldown h
               \<and> (if \<exists>(dx, dy) \<in> set unit_dirs. floor_at m (hx h + dx) (hy h + dy)
                  then (\<exists>(dx, dy) \<in> set unit_dirs. hx h' = hx h + dx \<and> hy h' = hy h + dy
                        \<and> floor_at m (hx h') (hy h')
                        \<and> (\<forall>(ex, ey) \<in> set unit_dirs. floor_at m (hx h + ex) (hy h + ey) \<longrightarrow>
                              manhattan (hx h') (hy h') tx ty
                                \<le> manhattan (hx h + ex) (hy h + ey) tx ty)
                        \<and> (\<exists>ds. filter (\<lambda>(ex, ey). floor_at m (hx h + ex) (hy h + ey)
                                       \<and> manhattan (hx h + ex) (hy h + ey) tx ty
                                           = manhattan (hx h') (hy h') tx ty)
                                    (fst (shuffle rs unit_dirs)) = (dx, dy) # ds))
                  else h' = h)))"
  proof (cases "manhattan (hx h) (hy h) tx ty < 10")
    case True
    then show ?thesis
      using stepHound_moves[OF assms(1) assms(2), of h tx ty]
      by (simp add: hound_turn_def Let_def)
  next
    case False
    then show ?thesis
      using stepHound_moves[OF assms(1) u, of h tx ty]
      by (simp add: hound_turn_def Let_def)
  qed
  note loop = advance_hounds_rounds[OF assms(1) assms(2), of tx ty hs]
  have eng: "gameOver s = None \<and> smap s = m \<and> hounds s = hs
            \<and> tx = clamp (plx (player s) + dx) 0 (int W - 1)
            \<and> ty = clamp (ply (player s) + dy) 0 (int H - 1)
            \<and> cell_at m tx ty = Some c \<and> t c = FLOOR \<and> \<not> exit c \<longrightarrow>
            (\<exists>s' hs' r'. advance_hounds m tx ty hs r = Some (hs', r')
               \<and> step dx dy r s = Some (s', r') \<and> hounds s' = hs')"
  proof
    assume h: "gameOver s = None \<and> smap s = m \<and> hounds s = hs
            \<and> tx = clamp (plx (player s) + dx) 0 (int W - 1)
            \<and> ty = clamp (ply (player s) + dy) 0 (int H - 1)
            \<and> cell_at m tx ty = Some c \<and> t c = FLOOR \<and> \<not> exit c"
    from advance_hounds_total[OF assms(1), of tx ty hs r] obtain hs' r' where
      ah: "advance_hounds m tx ty hs r = Some (hs', r')" by blast
    from h have g: "gameOver s = None" and sm: "smap s = m" and hh: "hounds s = hs"
      and x: "tx = clamp (plx (player s) + dx) 0 (int W - 1)"
      and y: "ty = clamp (ply (player s) + dy) 0 (int H - 1)"
      and c: "cell_at m tx ty = Some c" "t c = FLOOR" "\<not> exit c" by blast+
    have c': "cell_at (smap s) tx ty = Some c" using c(1) sm by simp
    have ah': "advance_hounds (smap s) tx ty (hounds s) r = Some (hs', r')"
      using ah sm hh by simp
    have "\<exists>s'. step dx dy r s = Some (s', r') \<and> hounds s' = hs'"
      by (rule step_hounds[OF g x y c' c(2) c(3) ah'])
    then show "\<exists>s' hs' r'. advance_hounds m tx ty hs r = Some (hs', r')
               \<and> step dx dy r s = Some (s', r') \<and> hounds s' = hs'"
      using ah by blast
  qed
  from one loop eng show ?thesis by (intro conjI) (elim conjE, assumption)+
qed

theorem pursuit_rule_witness:
  "rect open_grid \<and> unit_draws rng0 \<and> unit_draws rng_half
   \<and> cooldown \<lparr>hx = 7, hy = 5, cooldown = 2\<rparr> > 0
   \<and> hound_turn open_grid 6 5 \<lparr>hx = 7, hy = 5, cooldown = 2\<rparr> rng0
        = Some (\<lparr>hx = 7, hy = 5, cooldown = 1\<rparr>, rng0)
   \<and> cooldown \<lparr>hx = 30, hy = 20, cooldown = 0\<rparr> \<le> 0
   \<and> \<not> manhattan 30 20 6 5 < 10 \<and> \<not> draw rng_half < 3 / 10
   \<and> hound_turn open_grid 6 5 \<lparr>hx = 30, hy = 20, cooldown = 0\<rparr> rng_half
        = Some (\<lparr>hx = 30, hy = 20, cooldown = 0\<rparr>, rest rng_half)
   \<and> cooldown \<lparr>hx = 7, hy = 5, cooldown = 0\<rparr> \<le> 0
   \<and> manhattan 7 5 6 5 < 10
   \<and> (\<exists>h' rs. rs = (if manhattan (hx \<lparr>hx = 7, hy = 5, cooldown = 0\<rparr>) (hy \<lparr>hx = 7, hy = 5, cooldown = 0\<rparr>) 6 5 < 10 then rng0 else rest rng0)
               \<and> hound_turn open_grid 6 5 \<lparr>hx = 7, hy = 5, cooldown = 0\<rparr> rng0 = Some (h', snd (shuffle rs unit_dirs))
               \<and> cooldown h' = cooldown \<lparr>hx = 7, hy = 5, cooldown = 0\<rparr>
               \<and> (if \<exists>(dx, dy) \<in> set unit_dirs. floor_at open_grid (hx \<lparr>hx = 7, hy = 5, cooldown = 0\<rparr> + dx) (hy \<lparr>hx = 7, hy = 5, cooldown = 0\<rparr> + dy)
                  then (\<exists>(dx, dy) \<in> set unit_dirs. hx h' = hx \<lparr>hx = 7, hy = 5, cooldown = 0\<rparr> + dx \<and> hy h' = hy \<lparr>hx = 7, hy = 5, cooldown = 0\<rparr> + dy
                        \<and> floor_at open_grid (hx h') (hy h')
                        \<and> (\<forall>(ex, ey) \<in> set unit_dirs. floor_at open_grid (hx \<lparr>hx = 7, hy = 5, cooldown = 0\<rparr> + ex) (hy \<lparr>hx = 7, hy = 5, cooldown = 0\<rparr> + ey) \<longrightarrow>
                              manhattan (hx h') (hy h') 6 5
                                \<le> manhattan (hx \<lparr>hx = 7, hy = 5, cooldown = 0\<rparr> + ex) (hy \<lparr>hx = 7, hy = 5, cooldown = 0\<rparr> + ey) 6 5)
                        \<and> (\<exists>ds. filter (\<lambda>(ex, ey). floor_at open_grid (hx \<lparr>hx = 7, hy = 5, cooldown = 0\<rparr> + ex) (hy \<lparr>hx = 7, hy = 5, cooldown = 0\<rparr> + ey)
                                       \<and> manhattan (hx \<lparr>hx = 7, hy = 5, cooldown = 0\<rparr> + ex) (hy \<lparr>hx = 7, hy = 5, cooldown = 0\<rparr> + ey) 6 5
                                           = manhattan (hx h') (hy h') 6 5)
                                    (fst (shuffle rs unit_dirs)) = (dx, dy) # ds))
                  else h' = \<lparr>hx = 7, hy = 5, cooldown = 0\<rparr>))
   \<and> (\<exists>hs' rs. advance_hounds open_grid 6 5 (hounds pack_state) rng_half
              = Some (hs', rs ! length (hounds pack_state))
         \<and> length hs' = length (hounds pack_state)
         \<and> length rs = length (hounds pack_state) + 1 \<and> rs ! 0 = rng_half
         \<and> (\<forall>i<length (hounds pack_state). unit_draws (rs ! i)
               \<and> hound_turn open_grid 6 5 (hounds pack_state ! i) (rs ! i)
                   = Some (hs' ! i, rs ! Suc i)))
   \<and> advance_hounds open_grid 6 5 (hounds pack_state) rng_half
        = Some ([\<lparr>hx = 20, hy = 20, cooldown = 1\<rparr>, \<lparr>hx = 30, hy = 20, cooldown = 0\<rparr>,
              \<lparr>hx = 8, hy = 5, cooldown = 0\<rparr>], rng_half)
   \<and> gameOver pack_state = None
   \<and> smap pack_state = open_grid
   \<and> (6::int) = clamp (plx (player pack_state) + 1) 0 (int W - 1)
   \<and> (5::int) = clamp (ply (player pack_state) + 0) 0 (int H - 1)
   \<and> cell_at open_grid 6 5 = Some floor_cell
   \<and> t floor_cell = FLOOR
   \<and> \<not> exit floor_cell
   \<and> (\<exists>s' hs' r'. advance_hounds open_grid 6 5 (hounds pack_state) rng_half = Some (hs', r')
         \<and> step 1 0 rng_half pack_state = Some (s', r') \<and> hounds s' = hs')
   \<and> map_option (hounds \<circ> fst) (step 1 0 rng_half pack_state)
        = Some [\<lparr>hx = 20, hy = 20, cooldown = 1\<rparr>, \<lparr>hx = 30, hy = 20, cooldown = 0\<rparr>,
              \<lparr>hx = 8, hy = 5, cooldown = 0\<rparr>]"
proof -
  note g = dims_rect[OF dims_open_grid]
  have u: "unit_draws rng_half" by (simp add: unit_draws_def rng_half_def)
  have a: "cooldown \<lparr>hx = 7, hy = 5, cooldown = 2\<rparr> > 0" by simp
  have b: "cooldown \<lparr>hx = 30, hy = 20, cooldown = 0\<rparr> \<le> 0"
    "\<not> manhattan 30 20 6 5 < 10" "\<not> draw rng_half < 3 / 10"
    by (simp_all add: manhattan_def draw_def rng_half_def)
  have c: "cooldown \<lparr>hx = 7, hy = 5, cooldown = 0\<rparr> \<le> 0" "manhattan 7 5 6 5 < 10"
    by (simp_all add: manhattan_def)
  have 1: "hound_turn open_grid 6 5 \<lparr>hx = 7, hy = 5, cooldown = 2\<rparr> rng0
        = Some (\<lparr>hx = 7, hy = 5, cooldown = 1\<rparr>, rng0)"
    using pursuit_rule[OF g unit_draws_rng0, of "\<lparr>hx = 7, hy = 5, cooldown = 2\<rparr>" 6 5,
        THEN conjunct1] a
    by simp
  have 2: "hound_turn open_grid 6 5 \<lparr>hx = 30, hy = 20, cooldown = 0\<rparr> rng_half
        = Some (\<lparr>hx = 30, hy = 20, cooldown = 0\<rparr>, rest rng_half)"
    using pursuit_rule[OF g u, of "\<lparr>hx = 30, hy = 20, cooldown = 0\<rparr>" 6 5,
        THEN conjunct2, THEN conjunct1] b
    by simp
  have 3: "(\<exists>h' rs. rs = (if manhattan (hx \<lparr>hx = 7, hy = 5, cooldown = 0\<rparr>) (hy \<lparr>hx = 7, hy = 5, cooldown = 0\<rparr>) 6 5 < 10 then rng0 else rest rng0)
               \<and> hound_turn open_grid 6 5 \<lparr>hx = 7, hy = 5, cooldown = 0\<rparr> rng0 = Some (h', snd (shuffle rs unit_dirs))
               \<and> cooldown h' = cooldown \<lparr>hx = 7, hy = 5, cooldown = 0\<rparr>
               \<and> (if \<exists>(dx, dy) \<in> set unit_dirs. floor_at open_grid (hx \<lparr>hx = 7, hy = 5, cooldown = 0\<rparr> + dx) (hy \<lparr>hx = 7, hy = 5, cooldown = 0\<rparr> + dy)
                  then (\<exists>(dx, dy) \<in> set unit_dirs. hx h' = hx \<lparr>hx = 7, hy = 5, cooldown = 0\<rparr> + dx \<and> hy h' = hy \<lparr>hx = 7, hy = 5, cooldown = 0\<rparr> + dy
                        \<and> floor_at open_grid (hx h') (hy h')
                        \<and> (\<forall>(ex, ey) \<in> set unit_dirs. floor_at open_grid (hx \<lparr>hx = 7, hy = 5, cooldown = 0\<rparr> + ex) (hy \<lparr>hx = 7, hy = 5, cooldown = 0\<rparr> + ey) \<longrightarrow>
                              manhattan (hx h') (hy h') 6 5
                                \<le> manhattan (hx \<lparr>hx = 7, hy = 5, cooldown = 0\<rparr> + ex) (hy \<lparr>hx = 7, hy = 5, cooldown = 0\<rparr> + ey) 6 5)
                        \<and> (\<exists>ds. filter (\<lambda>(ex, ey). floor_at open_grid (hx \<lparr>hx = 7, hy = 5, cooldown = 0\<rparr> + ex) (hy \<lparr>hx = 7, hy = 5, cooldown = 0\<rparr> + ey)
                                       \<and> manhattan (hx \<lparr>hx = 7, hy = 5, cooldown = 0\<rparr> + ex) (hy \<lparr>hx = 7, hy = 5, cooldown = 0\<rparr> + ey) 6 5
                                           = manhattan (hx h') (hy h') 6 5)
                                    (fst (shuffle rs unit_dirs)) = (dx, dy) # ds))
                  else h' = \<lparr>hx = 7, hy = 5, cooldown = 0\<rparr>))"
    using pursuit_rule[OF g unit_draws_rng0, of "\<lparr>hx = 7, hy = 5, cooldown = 0\<rparr>" 6 5,
        THEN conjunct2, THEN conjunct2, THEN conjunct1] c
    by simp
  note p = pursuit_rule[OF g u, of _ 6 5 "hounds pack_state" pack_state 1 0 floor_cell,
      THEN conjunct2, THEN conjunct2, THEN conjunct2]
  have 4: "(\<exists>hs' rs. advance_hounds open_grid 6 5 (hounds pack_state) rng_half
              = Some (hs', rs ! length (hounds pack_state))
         \<and> length hs' = length (hounds pack_state)
         \<and> length rs = length (hounds pack_state) + 1 \<and> rs ! 0 = rng_half
         \<and> (\<forall>i<length (hounds pack_state). unit_draws (rs ! i)
               \<and> hound_turn open_grid 6 5 (hounds pack_state ! i) (rs ! i)
                   = Some (hs' ! i, rs ! Suc i)))"
    by (rule p[THEN conjunct1])
  have e: "gameOver pack_state = None" "smap pack_state = open_grid"
    "(6::int) = clamp (plx (player pack_state) + 1) 0 (int W - 1)"
    "(5::int) = clamp (ply (player pack_state) + 0) 0 (int H - 1)"
    "cell_at open_grid 6 5 = Some floor_cell" "t floor_cell = FLOOR" "\<not> exit floor_cell"
    by (simp_all add: pack_state_def clamp_def W_def H_def cell_open floor_cell_def)
  have 5: "(\<exists>s' hs' r'. advance_hounds open_grid 6 5 (hounds pack_state) rng_half = Some (hs', r')
         \<and> step 1 0 rng_half pack_state = Some (s', r') \<and> hounds s' = hs')"
    using p[THEN conjunct2] e by simp
  have 6: "map_option (hounds \<circ> fst) (step 1 0 rng_half pack_state)
        = Some [\<lparr>hx = 20, hy = 20, cooldown = 1\<rparr>, \<lparr>hx = 30, hy = 20, cooldown = 0\<rparr>,
              \<lparr>hx = 8, hy = 5, cooldown = 0\<rparr>]"
    using 5 by (auto simp: advance_pack)
  show ?thesis using g unit_draws_rng0 u a b c 1 2 3 4 advance_pack e 5 6 by blast
qed

section \<open>The draws of the lighting pass\<close>

lemma after_after: "after k (after j r) = after (j + k) r"
  by (simp add: after_def ac_simps)

lemma unit_draws_after: "unit_draws r \<Longrightarrow> unit_draws (after k r)"
  by (simp add: unit_draws_def after_def)

lemma shuffle_after: "snd (shuffle r a) = after (length a - 1) r"
  by (simp add: shuffle_def shuffle_from_after)

lemma maze_loop_after: "maze_loop m stack r = Some (m', r') \<Longrightarrow> \<exists>k. r' = after k r"
proof (induction m stack r rule: maze_loop.induct)
  case (1 m r)
  then have "r' = after 0 r" by (simp add: maze_loop.simps after_0)
  then show ?case by blast
next
  case (2 m cx cy stack r)
  obtain order r1 where sh: "shuffle r maze_dirs = (order, r1)" by (cases "shuffle r maze_dirs")
  have r1: "r1 = after (length maze_dirs - 1) r" using sh shuffle_after[of r maze_dirs] by simp
  have "\<exists>k. r' = after k r1"
  proof (cases "try_dirs m cx cy order")
    case Thrown
    then show ?thesis using "2.prems" sh by (simp add: maze_loop.simps)
  next
    case Blocked
    then show ?thesis using "2.IH"(1)[OF sh[symmetric] Blocked] "2.prems" sh
      by (simp add: maze_loop.simps)
  next
    case (Carved m1 nx ny)
    then show ?thesis using "2.IH"(2)[OF sh[symmetric] Carved] "2.prems" sh
      by (simp add: maze_loop.simps)
  qed
  then obtain k where "r' = after k r1" by blast
  then have "r' = after (length maze_dirs - 1 + k) r" by (simp add: r1 after_after)
  then show ?case by blast
qed

lemma punch_rooms_after: "punch_rooms n w h m r = (m', r') \<Longrightarrow> r' = after (4 * n) r"
proof (induction n arbitrary: m r)
  case 0
  then show ?case by (simp add: after_0)
next
  case (Suc n)
  let ?r4 = "rest (rest (rest (rest r)))"
  from Suc.prems obtain m1 where "punch_rooms n w h m1 ?r4 = (m', r')"
    by (simp add: Let_def)
  from Suc.IH[OF this] have "r' = after (4 * n) ?r4" .
  moreover have "4 * Suc n = Suc (Suc (Suc (Suc (4 * n))))" by simp
  ultimately show ?case by (simp only: after_rest)
qed

lemma place_lights_after:
  "place_lights n w h m r = Some (m', r') \<Longrightarrow> r' = after (2 * n) r"
proof (induction n arbitrary: m r)
  case 0
  then show ?case by (simp add: after_0)
next
  case (Suc n)
  from Suc.prems obtain m1 where "place_lights n w h m1 (rest (rest r)) = Some (m', r')"
    by (auto simp: Let_def split: option.splits if_splits)
  from Suc.IH[OF this] have "r' = after (2 * n) (rest (rest r))" .
  then show ?case by (simp add: after_rest)
qed

lemma length_light_draws: "length (light_draws n w h r) = n"
  by (induction n arbitrary: r) simp_all

lemma light_sources_draws:
  "light_sources n w h m r
     = filter (\<lambda>(lx, ly). map_option t (cell_at m lx ly) = Some FLOOR) (light_draws n w h r)"
  by (induction n arbitrary: r) (simp_all add: Let_def)

lemma light_draws_range:
  assumes "2 \<le> w - 3" "2 \<le> h - 3"
  shows "unit_draws r \<Longrightarrow>
    \<forall>(lx, ly) \<in> set (light_draws n w h r). 2 \<le> lx \<and> lx \<le> w - 3 \<and> 2 \<le> ly \<and> ly \<le> h - 3"
proof (induction n arbitrary: r)
  case 0
  then show ?case by simp
next
  case (Suc n)
  note u1 = unit_draws_rest[OF Suc.prems]
  note u2 = unit_draws_rest[OF u1]
  from randInt_range(1)[OF Suc.prems assms(1)] randInt_range(1)[OF u1 assms(2)] Suc.IH[OF u2]
  show ?case by simp
qed

lemma glow_value_distant:
  assumes "9 \<le> dx * dx + dy * dy"
  shows "glow_value dx dy = 0"
proof -
  from assms have "(9::real) \<le> of_int (dx * dx + dy * dy)" by linarith
  then have "sqrt 9 \<le> sqrt (of_int (dx * dx + dy * dy))" by (simp only: real_sqrt_le_iff)
  moreover have "sqrt 9 = 3" by (rule real_sqrt_unique) simp_all
  ultimately have "3 \<le> sqrt (of_int (dx * dx + dy * dy))" by simp
  then show ?thesis by (simp add: glow_value_def clamp_def)
qed

lemma brightest_distant:
  assumes "\<forall>(lx, ly) \<in> set srcs. 9 \<le> (x - lx) * (x - lx) + (y - ly) * (y - ly)"
  shows "brightest srcs x y 0 = 0"
  using assms
proof (induction srcs)
  case Nil
  then show ?case by (simp add: brightest_Nil)
next
  case (Cons s srcs)
  obtain lx ly where s: "s = (lx, ly)" by (cases s)
  have "glow_value (x - lx) (y - ly) = 0"
    by (rule glow_value_distant) (use Cons.prems s in simp)
  moreover have "brightest srcs x y 0 = 0"
    by (rule Cons.IH) (use Cons.prems in simp)
  ultimately show ?case by (simp add: s brightest_Cons)
qed

text \<open>
  On a map of 3 columns \<open>randInt(rng, 2, 0)\<close> is called with its bounds crossed: with
  draws of one half the light of a map of 3 columns and 67 rows is drawn at column 1.
\<close>

lemma narrow_light_draw: "light_draws (3 * 67 div 200) 3 67 rng_half = [(1, 33)]"
  by (simp add: randInt_def draw_rng_half rest_rng_half)

text \<open>
  C7, amended: when the generator returns, the lighting pass has made \<open>floor(W*H/200)\<close>
  draws of a coordinate on the stream the rooms left, two numbers each and no more:
  \<open>randInt(rng, 2, W-3)\<close> and \<open>randInt(rng, 2, H-3)\<close>, which lie between 2 and \<open>W-3\<close> and
  between 2 and \<open>H-3\<close> when the map has at least 5 columns and 5 rows and the numbers of
  the stream are in the unit interval. The draws that land on a Floor cell are the
  sources, the others are skipped, so there are at most that many sources, each on a Floor
  cell. Every Floor cell ends with the greatest of 0 and \<open>clamp(1 - d/3, 0, 1)\<close> over the
  sources, which is 0 when no source is within distance 3, and every Wall cell with light 0.
\<close>

theorem lighting_pass:
  assumes "generateLayout w h r = Some (m', r')"
  shows "\<exists>m1 r1 m2 r2 draws srcs.
      maze_loop (carve (makeEmptyMap w h) ((int w div 2) OR 1) ((int h div 2) OR 1))
         [((int w div 2) OR 1, (int h div 2) OR 1)] r = Some (m1, r1)
    \<and> punch_rooms (w * h div 400) (int w) (int h) m1 r1 = (m2, r2)
    \<and> place_lights (w * h div 200) (int w) (int h) m2 r2 = Some (m', r')
    \<and> r' = after (2 * (w * h div 200)) r2
    \<and> draws = light_draws (w * h div 200) (int w) (int h) r2
    \<and> length draws = w * h div 200
    \<and> (5 \<le> w \<and> 5 \<le> h \<and> unit_draws r \<longrightarrow>
         (\<forall>(lx, ly) \<in> set draws. 2 \<le> lx \<and> lx \<le> int w - 3 \<and> 2 \<le> ly \<and> ly \<le> int h - 3))
    \<and> srcs = filter (\<lambda>(lx, ly). floor_at m' lx ly) draws
    \<and> srcs = light_sources (w * h div 200) (int w) (int h) m2 r2
    \<and> length srcs \<le> w * h div 200
    \<and> (\<forall>(lx, ly) \<in> set srcs. floor_at m' lx ly)
    \<and> (\<forall>x y c. cell_at m' x y = Some c \<longrightarrow>
          light c = (if t c = FLOOR then brightest srcs x y 0 else 0))
    \<and> (\<forall>x y c. cell_at m' x y = Some c \<longrightarrow>
          (\<forall>(lx, ly) \<in> set srcs. 9 \<le> (x - lx) * (x - lx) + (y - ly) * (y - ly)) \<longrightarrow>
          light c = 0)"
proof -
  from generateLayout_parts[OF assms] obtain m1 r1 m2 r2 where
    mz: "maze_loop (carve (makeEmptyMap w h) ((int w div 2) OR 1) ((int h div 2) OR 1))
         [((int w div 2) OR 1, (int h div 2) OR 1)] r = Some (m1, r1)"
    and ro: "punch_rooms (w * h div 400) (int w) (int h) m1 r1 = (m2, r2)"
    and li: "place_lights (w * h div 200) (int w) (int h) m2 r2 = Some (m', r')"
    and d2: "dims w h m2" and k2: "dark m2" by metis
  let ?n = "w * h div 200"
  let ?draws = "light_draws ?n (int w) (int h) r2"
  let ?srcs = "light_sources ?n (int w) (int h) m2 r2"
  have r2: "rect m2" by (rule dims_rect[OF d2])
  have nn: "\<forall>x y c. cell_at m2 x y = Some c \<longrightarrow> 0 \<le> light c" using k2 by (simp add: dark_def)
  from place_lights_cells[OF r2 nn li] have r': "rect m'"
    and cells: "\<And>x y. cell_at m' x y =
        (case cell_at m2 x y of
           None \<Rightarrow> None
         | Some c \<Rightarrow> Some (if t c = FLOOR then c\<lparr>light := brightest ?srcs x y (light c)\<rparr>
                           else c))" by blast+
  have tiles: "\<And>x y. map_option t (cell_at m' x y) = map_option t (cell_at m2 x y)"
    by (simp add: cells split: option.splits)
  have stream: "r' = after (2 * ?n) r2" by (rule place_lights_after[OF li])
  have len: "length ?draws = w * h div 200" by (rule length_light_draws)
  have range: "5 \<le> w \<and> 5 \<le> h \<and> unit_draws r \<longrightarrow>
         (\<forall>(lx, ly) \<in> set ?draws. 2 \<le> lx \<and> lx \<le> int w - 3 \<and> 2 \<le> ly \<and> ly \<le> int h - 3)"
  proof
    assume a: "5 \<le> w \<and> 5 \<le> h \<and> unit_draws r"
    from maze_loop_after[OF mz] obtain k where "r1 = after k r" by blast
    then have "unit_draws r1" using a by (simp add: unit_draws_after)
    then have u2: "unit_draws r2" using punch_rooms_after[OF ro] by (simp add: unit_draws_after)
    show "\<forall>(lx, ly) \<in> set ?draws. 2 \<le> lx \<and> lx \<le> int w - 3 \<and> 2 \<le> ly \<and> ly \<le> int h - 3"
      by (rule light_draws_range[OF _ _ u2]) (use a in simp_all)
  qed
  have fil: "?srcs = filter (\<lambda>(lx, ly). floor_at m' lx ly) ?draws"
    unfolding light_sources_draws by (simp add: floor_at_cell[OF r'] tiles)
  have slen: "length ?srcs \<le> w * h div 200"
    unfolding fil using length_filter_le[of _ ?draws] len by simp
  have fl: "\<forall>(lx, ly) \<in> set ?srcs. floor_at m' lx ly"
    unfolding fil by auto
  have lights: "\<forall>x y c. cell_at m' x y = Some c \<longrightarrow>
          light c = (if t c = FLOOR then brightest ?srcs x y 0 else 0)"
  proof (intro allI impI)
    fix x y c assume c: "cell_at m' x y = Some c"
    then obtain c2 where c2: "cell_at m2 x y = Some c2"
      using cells[of x y] by (auto split: option.splits)
    have "light c2 = 0" using k2 c2 by (simp add: dark_def)
    then show "light c = (if t c = FLOOR then brightest ?srcs x y 0 else 0)"
      using cells[of x y] c c2 by (auto split: if_splits)
  qed
  have distant: "\<forall>x y c. cell_at m' x y = Some c \<longrightarrow>
          (\<forall>(lx, ly) \<in> set ?srcs. 9 \<le> (x - lx) * (x - lx) + (y - ly) * (y - ly)) \<longrightarrow>
          light c = 0"
    using lights brightest_distant[of ?srcs] by simp
  show ?thesis
    using mz ro li stream len range fil slen fl lights distant by blast
qed

theorem lighting_pass_witness:
  "\<exists>m' r'. generateLayout 20 10 rng_mid = Some (m', r')
     \<and> (\<exists>m1 r1 m2 r2 draws srcs.
      maze_loop (carve (makeEmptyMap 20 10) ((int 20 div 2) OR 1) ((int 10 div 2) OR 1))
         [((int 20 div 2) OR 1, (int 10 div 2) OR 1)] rng_mid = Some (m1, r1)
    \<and> punch_rooms ((20::nat) * 10 div 400) (int 20) (int 10) m1 r1 = (m2, r2)
    \<and> place_lights ((20::nat) * 10 div 200) (int 20) (int 10) m2 r2 = Some (m', r')
    \<and> r' = after (2 * ((20::nat) * 10 div 200)) r2
    \<and> draws = light_draws ((20::nat) * 10 div 200) (int 20) (int 10) r2
    \<and> length draws = (20::nat) * 10 div 200
    \<and> 5 \<le> (20::nat) \<and> 5 \<le> (10::nat) \<and> unit_draws rng_mid \<and>
         (\<forall>(lx, ly) \<in> set draws. 2 \<le> lx \<and> lx \<le> int 20 - 3 \<and> 2 \<le> ly \<and> ly \<le> int 10 - 3)
    \<and> srcs = filter (\<lambda>(lx, ly). floor_at m' lx ly) draws
    \<and> srcs = light_sources ((20::nat) * 10 div 200) (int 20) (int 10) m2 r2
    \<and> length srcs \<le> (20::nat) * 10 div 200
    \<and> (\<forall>(lx, ly) \<in> set srcs. floor_at m' lx ly)
    \<and> (\<forall>x y c. cell_at m' x y = Some c \<longrightarrow>
          light c = (if t c = FLOOR then brightest srcs x y 0 else 0))
    \<and> (\<forall>x y c. cell_at m' x y = Some c \<longrightarrow>
          (\<forall>(lx, ly) \<in> set srcs. 9 \<le> (x - lx) * (x - lx) + (y - ly) * (y - ly)) \<longrightarrow>
          light c = 0)
    \<and> draws = [(11, 5)] \<and> srcs = [(11, 5)])
     \<and> floor_at m' 11 5 \<and> map_option light (cell_at m' 11 5) = Some 1
     \<and> (\<forall>x y c. cell_at m' x y = Some c \<longrightarrow>
           light c = (if t c = FLOOR then glow_value (x - 11) (y - 5) else 0))"
proof -
  have u: "unit_draws rng_mid" by (simp add: unit_draws_def rng_mid_def)
  have am: "\<And>k. after k rng_mid = rng_mid" by (simp add: after_def rng_mid_def)
  from generateLayout_props[of 20 10 rng_mid] u obtain m' r' where
    gen: "generateLayout 20 10 rng_mid = Some (m', r')" and d: "dims 20 10 m'"
    and nodes: "\<forall>x y. odd x \<and> odd y \<and> inBounds m' x y \<longrightarrow> floor_at m' x y" by auto
  have fl: "floor_at m' 11 5" using nodes dims_inBounds[OF d, of 11 5] by simp
  from lighting_pass[OF gen] obtain m1 r1 m2 r2 draws srcs where
    big: "maze_loop (carve (makeEmptyMap 20 10) ((int 20 div 2) OR 1) ((int 10 div 2) OR 1))
         [((int 20 div 2) OR 1, (int 10 div 2) OR 1)] rng_mid = Some (m1, r1)
    \<and> punch_rooms ((20::nat) * 10 div 400) (int 20) (int 10) m1 r1 = (m2, r2)
    \<and> place_lights ((20::nat) * 10 div 200) (int 20) (int 10) m2 r2 = Some (m', r')
    \<and> r' = after (2 * ((20::nat) * 10 div 200)) r2
    \<and> draws = light_draws ((20::nat) * 10 div 200) (int 20) (int 10) r2
    \<and> length draws = (20::nat) * 10 div 200
    \<and> (5 \<le> (20::nat) \<and> 5 \<le> (10::nat) \<and> unit_draws rng_mid \<longrightarrow>
         (\<forall>(lx, ly) \<in> set draws. 2 \<le> lx \<and> lx \<le> int 20 - 3 \<and> 2 \<le> ly \<and> ly \<le> int 10 - 3))
    \<and> srcs = filter (\<lambda>(lx, ly). floor_at m' lx ly) draws
    \<and> srcs = light_sources ((20::nat) * 10 div 200) (int 20) (int 10) m2 r2
    \<and> length srcs \<le> (20::nat) * 10 div 200
    \<and> (\<forall>(lx, ly) \<in> set srcs. floor_at m' lx ly)
    \<and> (\<forall>x y c. cell_at m' x y = Some c \<longrightarrow>
          light c = (if t c = FLOOR then brightest srcs x y 0 else 0))
    \<and> (\<forall>x y c. cell_at m' x y = Some c \<longrightarrow>
          (\<forall>(lx, ly) \<in> set srcs. 9 \<le> (x - lx) * (x - lx) + (y - ly) * (y - ly)) \<longrightarrow>
          light c = 0)"
    by (elim exE) (rule that)
  note f1 = big[THEN conjunct1]
  note f2 = big[THEN conjunct2, THEN conjunct1]
  note f3 = big[THEN conjunct2, THEN conjunct2, THEN conjunct1]
  note f4 = big[THEN conjunct2, THEN conjunct2, THEN conjunct2, THEN conjunct1]
  note f5 = big[THEN conjunct2, THEN conjunct2, THEN conjunct2, THEN conjunct2, THEN conjunct1]
  note f6 = big[THEN conjunct2, THEN conjunct2, THEN conjunct2, THEN conjunct2, THEN conjunct2, THEN conjunct1]
  note f7 = big[THEN conjunct2, THEN conjunct2, THEN conjunct2, THEN conjunct2, THEN conjunct2, THEN conjunct2, THEN conjunct1]
  note f8 = big[THEN conjunct2, THEN conjunct2, THEN conjunct2, THEN conjunct2, THEN conjunct2, THEN conjunct2, THEN conjunct2, THEN conjunct1]
  note f9 = big[THEN conjunct2, THEN conjunct2, THEN conjunct2, THEN conjunct2, THEN conjunct2, THEN conjunct2, THEN conjunct2, THEN conjunct2, THEN conjunct1]
  note f10 = big[THEN conjunct2, THEN conjunct2, THEN conjunct2, THEN conjunct2, THEN conjunct2, THEN conjunct2, THEN conjunct2, THEN conjunct2, THEN conjunct2, THEN conjunct1]
  note f11 = big[THEN conjunct2, THEN conjunct2, THEN conjunct2, THEN conjunct2, THEN conjunct2, THEN conjunct2, THEN conjunct2, THEN conjunct2, THEN conjunct2, THEN conjunct2, THEN conjunct1]
  note f12 = big[THEN conjunct2, THEN conjunct2, THEN conjunct2, THEN conjunct2, THEN conjunct2, THEN conjunct2, THEN conjunct2, THEN conjunct2, THEN conjunct2, THEN conjunct2, THEN conjunct2, THEN conjunct1]
  note f13 = big[THEN conjunct2, THEN conjunct2, THEN conjunct2, THEN conjunct2, THEN conjunct2, THEN conjunct2, THEN conjunct2, THEN conjunct2, THEN conjunct2, THEN conjunct2, THEN conjunct2, THEN conjunct2]
  from maze_loop_after[OF f1] obtain k where "r1 = after k rng_mid" by blast
  then have r1: "r1 = rng_mid" by (simp add: am)
  have r2: "r2 = rng_mid" using punch_rooms_after[OF f2] r1 by (simp add: am)
  have one: "(20::nat) * 10 div 200 = Suc 0" by simp
  have dr: "draws = [(11, 5)]"
    unfolding f5 r2 one by (simp add: randInt_def draw_def rest_def rng_mid_def)
  have sr: "srcs = [(11, 5)]" unfolding f8 dr using fl by simp
  have n5: "5 \<le> (20::nat)" "5 \<le> (10::nat)" by simp_all
  have rg: "\<forall>(lx, ly) \<in> set draws. 2 \<le> lx \<and> lx \<le> int 20 - 3 \<and> 2 \<le> ly \<and> ly \<le> int 10 - 3"
    using f7 u n5 by blast
  from fl obtain c where c: "cell_at m' 11 5 = Some c" "t c = FLOOR"
    by (auto simp: floor_at_def split: option.splits)
  have "light c = brightest srcs 11 5 0" using f12 c by simp
  then have l1: "map_option light (cell_at m' 11 5) = Some 1"
    using c by (simp add: sr brightest_Cons brightest_Nil glow_value_origin)
  have all: "\<forall>x y c. cell_at m' x y = Some c \<longrightarrow>
           light c = (if t c = FLOOR then glow_value (x - 11) (y - 5) else 0)"
  proof (intro allI impI)
    fix x y c assume "cell_at m' x y = Some c"
    then have "light c = (if t c = FLOOR then brightest srcs x y 0 else 0)" using f12 by blast
    then show "light c = (if t c = FLOOR then glow_value (x - 11) (y - 5) else 0)"
      using glow_value_nonneg[of "x - 11" "y - 5"]
      by (simp add: sr brightest_Cons brightest_Nil max_def)
  qed
  have inner: "\<exists>m1 r1 m2 r2 draws srcs.
      maze_loop (carve (makeEmptyMap 20 10) ((int 20 div 2) OR 1) ((int 10 div 2) OR 1))
         [((int 20 div 2) OR 1, (int 10 div 2) OR 1)] rng_mid = Some (m1, r1)
    \<and> punch_rooms ((20::nat) * 10 div 400) (int 20) (int 10) m1 r1 = (m2, r2)
    \<and> place_lights ((20::nat) * 10 div 200) (int 20) (int 10) m2 r2 = Some (m', r')
    \<and> r' = after (2 * ((20::nat) * 10 div 200)) r2
    \<and> draws = light_draws ((20::nat) * 10 div 200) (int 20) (int 10) r2
    \<and> length draws = (20::nat) * 10 div 200
    \<and> 5 \<le> (20::nat) \<and> 5 \<le> (10::nat) \<and> unit_draws rng_mid \<and>
         (\<forall>(lx, ly) \<in> set draws. 2 \<le> lx \<and> lx \<le> int 20 - 3 \<and> 2 \<le> ly \<and> ly \<le> int 10 - 3)
    \<and> srcs = filter (\<lambda>(lx, ly). floor_at m' lx ly) draws
    \<and> srcs = light_sources ((20::nat) * 10 div 200) (int 20) (int 10) m2 r2
    \<and> length srcs \<le> (20::nat) * 10 div 200
    \<and> (\<forall>(lx, ly) \<in> set srcs. floor_at m' lx ly)
    \<and> (\<forall>x y c. cell_at m' x y = Some c \<longrightarrow>
          light c = (if t c = FLOOR then brightest srcs x y 0 else 0))
    \<and> (\<forall>x y c. cell_at m' x y = Some c \<longrightarrow>
          (\<forall>(lx, ly) \<in> set srcs. 9 \<le> (x - lx) * (x - lx) + (y - ly) * (y - ly)) \<longrightarrow>
          light c = 0)
    \<and> draws = [(11, 5)] \<and> srcs = [(11, 5)]"
    by (rule exI[of _ m1], rule exI[of _ r1], rule exI[of _ m2], rule exI[of _ r2],
        rule exI[of _ draws], rule exI[of _ srcs], intro conjI)
      (fact f1 f2 f3 f4 f5 f6 n5 u rg f8 f9 f10 f11 f12 f13 dr sr)+
  show ?thesis
    by (rule exI[of _ m'], rule exI[of _ r'], intro conjI) (fact gen inner fl l1 all)+
qed

end
